theory Spec2Isabelle
  imports Complex_Main "HOL-Library.Multiset"
begin

section \<open>The face tracker of script.js\<close>

text \<open>
  The model covers the tracking and counting core of \<^verbatim>\<open>detectFaces\<close> (script.js, lines
  145 to 264) and the helper \<^verbatim>\<open>getFlippedBoxCenter\<close> (lines 58 to 62). The detector, the
  camera and the canvas drawing are outside: one call of the core receives the list
  \<^verbatim>\<open>detectionResult.detections\<close> and the value of \<^verbatim>\<open>canvasElement.width\<close>.

  JavaScript numbers are modelled as follows. Coordinates and the canvas width are
  \<open>real\<close>: the model has no rounding, no NaN and no infinity. The value \<^verbatim>\<open>Infinity\<close> with
  which \<^verbatim>\<open>minDistance\<close> starts is the value \<open>None\<close> of an option. The counters
  \<^verbatim>\<open>enterCount\<close>, \<^verbatim>\<open>exitCount\<close>, \<^verbatim>\<open>nextTrackingId\<close> and \<^verbatim>\<open>missedFrames\<close> start at 0 and only
  grow by 1, so they are \<open>nat\<close>; a JavaScript number counts exactly up to \<open>2^53\<close>, which
  the model does not bound.
\<close>

subsection \<open>Constants (lines 9 to 11)\<close>

definition PROXIMITY_THRESHOLD :: real where
  "PROXIMITY_THRESHOLD = 100"

definition CENTER_LINE_X_THRESHOLD :: real where
  "CENTER_LINE_X_THRESHOLD = 0.5"

definition MAX_MISS_FRAMES :: nat where
  "MAX_MISS_FRAMES = 5"

subsection \<open>Data\<close>

text \<open>The bounding box of a detection, and a detection, as the detector delivers them.\<close>

record BoundingBox =
  originX :: real
  originY :: real
  width :: real
  height :: real

record Detection =
  boundingBox :: BoundingBox

text \<open>The two values of \<^verbatim>\<open>lastSide\<close>: the strings \<^verbatim>\<open>'left'\<close> and \<^verbatim>\<open>'right'\<close>.\<close>

datatype side = Left | Right

text \<open>
  The value stored in the map \<^verbatim>\<open>trackedFaceStates\<close> (lines 30 to 40 and 250 to 258). The
  fields \<^verbatim>\<open>id\<close> and \<^verbatim>\<open>boundingBox\<close> carry a suffix: \<open>id\<close> is a constant of HOL and
  \<open>boundingBox\<close> is the field of a detection. For the same reason the loop variable
  \<^verbatim>\<open>id\<close> is \<open>tid\<close>.
\<close>

record faceState =
  id_st :: nat
  prevCenterFlippedX :: real
  lastSide :: side
  isEnterCounted :: bool
  isExitCounted :: bool
  missedFrames :: nat
  boundingBox_st :: BoundingBox

text \<open>
  A JavaScript \<^verbatim>\<open>Map\<close> iterates in insertion order, so it is an association list in that
  order. \<^verbatim>\<open>Map.prototype.set\<close> replaces the value of a key that is present, where it
  stands, and appends a key that is absent.
\<close>

type_synonym faceMap = "(nat \<times> faceState) list"

fun Map_set :: "('k \<times> 'v) list \<Rightarrow> 'k \<Rightarrow> 'v \<Rightarrow> ('k \<times> 'v) list" where
  "Map_set [] k v = [(k, v)]"
| "Map_set ((k', v') # m) k v =
     (if k' = k then (k, v) # m else (k', v') # Map_set m k v)"

text \<open>The state that lives across frames (lines 27, 28, 41, 42).\<close>

record tracker =
  enterCount :: nat
  exitCount :: nat
  trackedFaceStates :: faceMap
  nextTrackingId :: nat

definition initial :: tracker where
  "initial = \<lparr>enterCount = 0, exitCount = 0, trackedFaceStates = [], nextTrackingId = 0\<rparr>"

text \<open>
  The variables of one call of \<^verbatim>\<open>detectFaces\<close> that its loops change: the globals, the
  array \<^verbatim>\<open>unmatchedDetections\<close> and the map \<^verbatim>\<open>NEXT_FRAME_TRACKED_FACES\<close>.
\<close>

record pass =
  globals :: tracker
  unmatchedDetections :: "Detection list"
  NEXT_FRAME_TRACKED_FACES :: faceMap

text \<open>
  The only way the core can throw: \<^verbatim>\<open>splice(...)[0]\<close> is \<^verbatim>\<open>undefined\<close> when nothing was
  removed, and reading \<^verbatim>\<open>.boundingBox\<close> of it is a TypeError.
\<close>

datatype error = TypeError

subsection \<open>getFlippedBoxCenter (lines 58 to 62)\<close>

definition getFlippedBoxCenter :: "BoundingBox \<Rightarrow> real \<Rightarrow> real" where
  "getFlippedBoxCenter bBox canvasWidth =
     (let flippedX = canvasWidth - originX bBox - width bBox
      in flippedX + width bBox / 2)"

subsection \<open>The search for the best match (lines 174 to 189)\<close>

text \<open>\<^verbatim>\<open>distance < minDistance\<close>, where \<open>None\<close> is \<^verbatim>\<open>Infinity\<close>.\<close>

fun less_minDistance :: "real \<Rightarrow> real option \<Rightarrow> bool" where
  "less_minDistance d None = True"
| "less_minDistance d (Some m) = (d < m)"

text \<open>
  The inner \<^verbatim>\<open>for\<close> loop: the list is the part of \<^verbatim>\<open>unmatchedDetections\<close> from index \<open>i\<close>
  on, the triple holds \<^verbatim>\<open>matchFound\<close>, \<^verbatim>\<open>bestMatchIndex\<close> and \<^verbatim>\<open>minDistance\<close>.
\<close>

fun best_match_loop ::
  "real \<Rightarrow> faceState \<Rightarrow> Detection list \<Rightarrow> int \<Rightarrow> bool \<times> int \<times> real option
     \<Rightarrow> bool \<times> int \<times> real option" where
  "best_match_loop canvasWidth oldState [] i acc = acc"
| "best_match_loop canvasWidth oldState (detection # rest) i (matchFound, bestMatchIndex, minDistance) =
     (let currentCenterFlippedX = getFlippedBoxCenter (boundingBox detection) canvasWidth;
          distance = abs (currentCenterFlippedX - prevCenterFlippedX oldState)
      in if distance < PROXIMITY_THRESHOLD \<and> less_minDistance distance minDistance
         then best_match_loop canvasWidth oldState rest (i + 1) (True, i, Some distance)
         else best_match_loop canvasWidth oldState rest (i + 1)
                (matchFound, bestMatchIndex, minDistance))"

definition best_match ::
  "real \<Rightarrow> faceState \<Rightarrow> Detection list \<Rightarrow> bool \<times> int \<times> real option" where
  "best_match canvasWidth oldState dets =
     best_match_loop canvasWidth oldState dets 0 (False, - 1, None)"

text \<open>
  \<^verbatim>\<open>xs.splice(start, 1)\<close>: the removed elements and the array that is left. A negative
  \<open>start\<close> counts from the end, a \<open>start\<close> past the end removes nothing.
\<close>

definition splice1 :: "'a list \<Rightarrow> int \<Rightarrow> 'a list \<times> 'a list" where
  "splice1 xs start =
     (let len = int (length xs);
          from = nat (if start < 0 then max (len + start) 0 else min start len)
      in (take 1 (drop from xs), take from xs @ drop (from + 1) xs))"

subsection \<open>The counting logic (lines 205 to 222)\<close>

definition side_of :: "real \<Rightarrow> real \<Rightarrow> side" where
  "side_of currentCenterFlippedX centerLineX =
     (if currentCenterFlippedX < centerLineX then Left else Right)"

definition count_crossing :: "side \<Rightarrow> faceState \<Rightarrow> tracker \<Rightarrow> faceState \<times> tracker" where
  "count_crossing currentSide currentState g =
     (if currentSide \<noteq> lastSide currentState then
        (let (st, g') =
               (if lastSide currentState = Left \<and> currentSide = Right
                     \<and> \<not> isEnterCounted currentState
                then (currentState\<lparr>isEnterCounted := True\<rparr>, g\<lparr>enterCount := enterCount g + 1\<rparr>)
                else if lastSide currentState = Right \<and> currentSide = Left
                     \<and> \<not> isExitCounted currentState
                then (currentState\<lparr>isExitCounted := True\<rparr>, g\<lparr>exitCount := exitCount g + 1\<rparr>)
                else (currentState, g))
         in (st\<lparr>lastSide := currentSide\<rparr>, g'))
      else (currentState, g))"

subsection \<open>One old track (lines 173 to 240)\<close>

text \<open>
  Lines 194 to 222: the next state of a matched track and the globals after the counting
  logic.
\<close>

definition matched_state ::
  "real \<Rightarrow> faceState \<Rightarrow> Detection \<Rightarrow> tracker \<Rightarrow> faceState \<times> tracker" where
  "matched_state canvasWidth oldState matchingDetection g =
     (let centerLineX = canvasWidth * CENTER_LINE_X_THRESHOLD;
          newBoundingBox = boundingBox matchingDetection;
          currentCenterFlippedX = getFlippedBoxCenter newBoundingBox canvasWidth;
          currentState = oldState\<lparr>prevCenterFlippedX := currentCenterFlippedX,
                                  missedFrames := 0,
                                  boundingBox_st := newBoundingBox\<rparr>;
          currentSide = side_of currentCenterFlippedX centerLineX
      in count_crossing currentSide currentState g)"

definition matched_update ::
  "real \<Rightarrow> nat \<Rightarrow> faceState \<Rightarrow> Detection \<Rightarrow> Detection list \<Rightarrow> pass \<Rightarrow> pass" where
  "matched_update canvasWidth tid oldState matchingDetection rest p =
     (let (currentState, g') = matched_state canvasWidth oldState matchingDetection (globals p)
      in p\<lparr>globals := g',
           unmatchedDetections := rest,
           NEXT_FRAME_TRACKED_FACES :=
             Map_set (NEXT_FRAME_TRACKED_FACES p) tid currentState\<rparr>)"

definition unmatched_update :: "nat \<Rightarrow> faceState \<Rightarrow> pass \<Rightarrow> pass" where
  "unmatched_update tid oldState p =
     (let newMissedFrames = missedFrames oldState + 1
      in if newMissedFrames \<le> MAX_MISS_FRAMES
         then p\<lparr>NEXT_FRAME_TRACKED_FACES :=
                  Map_set (NEXT_FRAME_TRACKED_FACES p) tid
                    (oldState\<lparr>missedFrames := newMissedFrames\<rparr>)\<rparr>
         else p)"

definition track_step :: "real \<Rightarrow> nat \<times> faceState \<Rightarrow> pass \<Rightarrow> error + pass" where
  "track_step canvasWidth entry p =
     (let (tid, oldState) = entry;
          (matchFound, bestMatchIndex, minDistance) =
             best_match canvasWidth oldState (unmatchedDetections p)
      in if matchFound
         then (case splice1 (unmatchedDetections p) bestMatchIndex of
                 ([], rest) \<Rightarrow> Inl TypeError
               | (matchingDetection # _, rest) \<Rightarrow>
                   Inr (matched_update canvasWidth tid oldState matchingDetection rest p))
         else Inr (unmatched_update tid oldState p))"

text \<open>The outer loop over the entries of \<^verbatim>\<open>trackedFaceStates\<close>, in the order of the map.\<close>

fun match_loop :: "real \<Rightarrow> faceMap \<Rightarrow> pass \<Rightarrow> error + pass" where
  "match_loop canvasWidth [] p = Inr p"
| "match_loop canvasWidth (entry # entries) p =
     (case track_step canvasWidth entry p of
        Inl e \<Rightarrow> Inl e
      | Inr p' \<Rightarrow> match_loop canvasWidth entries p')"

subsection \<open>New tracks (lines 242 to 261)\<close>

definition new_track :: "real \<Rightarrow> Detection \<Rightarrow> pass \<Rightarrow> pass" where
  "new_track canvasWidth detection p =
     (let centerLineX = canvasWidth * CENTER_LINE_X_THRESHOLD;
          bBox = boundingBox detection;
          currentCenterFlippedX = getFlippedBoxCenter bBox canvasWidth;
          foundId = nextTrackingId (globals p);
          g' = (globals p)\<lparr>nextTrackingId := nextTrackingId (globals p) + 1\<rparr>;
          currentSide = side_of currentCenterFlippedX centerLineX;
          newState = \<lparr>id_st = foundId,
                      prevCenterFlippedX = currentCenterFlippedX,
                      lastSide = currentSide,
                      isEnterCounted = False,
                      isExitCounted = False,
                      missedFrames = 0,
                      boundingBox_st = bBox\<rparr>
      in p\<lparr>globals := g',
           NEXT_FRAME_TRACKED_FACES :=
             Map_set (NEXT_FRAME_TRACKED_FACES p) foundId newState\<rparr>)"

fun spawn_loop :: "real \<Rightarrow> Detection list \<Rightarrow> pass \<Rightarrow> pass" where
  "spawn_loop canvasWidth [] p = p"
| "spawn_loop canvasWidth (detection # rest) p =
     spawn_loop canvasWidth rest (new_track canvasWidth detection p)"

subsection \<open>The core of detectFaces (lines 145 to 264)\<close>

definition detectFaces :: "Detection list \<Rightarrow> real \<Rightarrow> tracker \<Rightarrow> error + tracker" where
  "detectFaces newDetections canvasWidth s =
     (let p0 = \<lparr>globals = s,
                unmatchedDetections = newDetections,
                NEXT_FRAME_TRACKED_FACES = []\<rparr>
      in case match_loop canvasWidth (trackedFaceStates s) p0 of
           Inl e \<Rightarrow> Inl e
         | Inr p1 \<Rightarrow>
             (let p2 = spawn_loop canvasWidth (unmatchedDetections p1) p1
              in Inr ((globals p2)\<lparr>trackedFaceStates := NEXT_FRAME_TRACKED_FACES p2\<rparr>)))"

text \<open>\<^verbatim>\<open>actualDetectionsCount\<close> of the drawing loop (lines 266 to 281).\<close>

definition actualDetectionsCount :: "tracker \<Rightarrow> nat" where
  "actualDetectionsCount s =
     length (filter (\<lambda>(k, st). missedFrames st = 0) (trackedFaceStates s))"

text \<open>
  The frames of a session: each frame is the detection list and the canvas width of one
  call. The result is the list of the states after each frame.
\<close>

fun run_frames :: "(Detection list \<times> real) list \<Rightarrow> tracker \<Rightarrow> error + tracker list" where
  "run_frames [] s = Inr []"
| "run_frames ((dets, canvasWidth) # frames) s =
     (case detectFaces dets canvasWidth s of
        Inl e \<Rightarrow> Inl e
      | Inr s' \<Rightarrow>
          (case run_frames frames s' of
             Inl e \<Rightarrow> Inl e
           | Inr tr \<Rightarrow> Inr (s' # tr)))"

text \<open>The states the program can be in: the initial one, and those after a frame.\<close>

inductive reachable :: "tracker \<Rightarrow> bool" where
  reachable_initial: "reachable initial"
| reachable_frame:
    "reachable s \<Longrightarrow> detectFaces dets canvasWidth s = Inr s' \<Longrightarrow> reachable s'"

section \<open>Vocabulary for the properties\<close>

text \<open>
  The definitions of this section are not part of the program: they name what the
  properties below talk about.
\<close>

text \<open>The distance of line 182 between a detection and a track, and the test of line 184.\<close>

definition dist_to :: "real \<Rightarrow> faceState \<Rightarrow> Detection \<Rightarrow> real" where
  "dist_to canvasWidth oldState d =
     abs (getFlippedBoxCenter (boundingBox d) canvasWidth - prevCenterFlippedX oldState)"

definition near :: "real \<Rightarrow> faceState \<Rightarrow> Detection \<Rightarrow> bool" where
  "near canvasWidth oldState d \<longleftrightarrow> dist_to canvasWidth oldState d < PROXIMITY_THRESHOLD"

text \<open>The invariant of the inner loop after the detections \<open>seen\<close>.\<close>

definition search_inv ::
  "real \<Rightarrow> faceState \<Rightarrow> Detection list \<Rightarrow> bool \<times> int \<times> real option \<Rightarrow> bool" where
  "search_inv W old seen acc =
     (case acc of (matchFound, bestMatchIndex, minDistance) \<Rightarrow>
        (matchFound \<longleftrightarrow> (\<exists>d \<in> set seen. near W old d)) \<and>
        (\<not> matchFound \<longrightarrow> bestMatchIndex = - 1 \<and> minDistance = None) \<and>
        (matchFound \<longrightarrow>
           0 \<le> bestMatchIndex \<and> nat bestMatchIndex < length seen \<and>
           minDistance = Some (dist_to W old (seen ! nat bestMatchIndex)) \<and>
           near W old (seen ! nat bestMatchIndex) \<and>
           (\<forall>d \<in> set seen. dist_to W old (seen ! nat bestMatchIndex) \<le> dist_to W old d) \<and>
           (\<forall>j < nat bestMatchIndex.
              dist_to W old (seen ! nat bestMatchIndex) < dist_to W old (seen ! j))))"

text \<open>The index the search returns, as a position in the list, and the list without it.\<close>

definition best_index :: "real \<Rightarrow> faceState \<Rightarrow> Detection list \<Rightarrow> nat" where
  "best_index W old ds = nat (fst (snd (best_match W old ds)))"

definition remove_nth :: "nat \<Rightarrow> 'a list \<Rightarrow> 'a list" where
  "remove_nth j xs = take j xs @ drop (Suc j) xs"

text \<open>Whether the counting logic fires for a track that is matched with a detection.\<close>

definition new_side :: "real \<Rightarrow> Detection \<Rightarrow> side" where
  "new_side W d =
     side_of (getFlippedBoxCenter (boundingBox d) W) (W * CENTER_LINE_X_THRESHOLD)"

definition enter_fires :: "real \<Rightarrow> faceState \<Rightarrow> Detection \<Rightarrow> bool" where
  "enter_fires W old d \<longleftrightarrow>
     lastSide old = Left \<and> new_side W d = Right \<and> \<not> isEnterCounted old"

definition exit_fires :: "real \<Rightarrow> faceState \<Rightarrow> Detection \<Rightarrow> bool" where
  "exit_fires W old d \<longleftrightarrow>
     lastSide old = Right \<and> new_side W d = Left \<and> \<not> isExitCounted old"

text \<open>The three values a track can have after a frame, in closed form.\<close>

definition matched_face :: "real \<Rightarrow> faceState \<Rightarrow> Detection \<Rightarrow> faceState" where
  "matched_face W old d =
     old\<lparr>prevCenterFlippedX := getFlippedBoxCenter (boundingBox d) W,
         lastSide := new_side W d,
         isEnterCounted := (isEnterCounted old \<or> enter_fires W old d),
         isExitCounted := (isExitCounted old \<or> exit_fires W old d),
         missedFrames := 0,
         boundingBox_st := boundingBox d\<rparr>"

definition aged :: "faceState \<Rightarrow> faceState" where
  "aged old = old\<lparr>missedFrames := missedFrames old + 1\<rparr>"

definition new_face :: "real \<Rightarrow> nat \<Rightarrow> Detection \<Rightarrow> faceState" where
  "new_face W k d =
     \<lparr>id_st = k,
      prevCenterFlippedX = getFlippedBoxCenter (boundingBox d) W,
      lastSide = new_side W d,
      isEnterCounted = False,
      isExitCounted = False,
      missedFrames = 0,
      boundingBox_st = boundingBox d\<rparr>"

text \<open>The variables of a call of \<^verbatim>\<open>detectFaces\<close> before and after its first loop.\<close>

definition start_pass :: "Detection list \<Rightarrow> tracker \<Rightarrow> pass" where
  "start_pass dets s =
     \<lparr>globals = s, unmatchedDetections = dets, NEXT_FRAME_TRACKED_FACES = []\<rparr>"

definition matching_pass :: "real \<Rightarrow> Detection list \<Rightarrow> tracker \<Rightarrow> pass" where
  "matching_pass W dets s =
     (case match_loop W (trackedFaceStates s) (start_pass dets s) of
        Inr p1 \<Rightarrow> p1
      | Inl e \<Rightarrow> start_pass dets s)"

text \<open>The tracks that the second loop makes of the detections \<open>ds\<close>, from the id \<open>n\<close> on.\<close>

definition spawned :: "real \<Rightarrow> nat \<Rightarrow> Detection list \<Rightarrow> faceMap" where
  "spawned W n ds = map (\<lambda>(i, d). (i, new_face W i d)) (enumerate n ds)"

text \<open>The variables of a call with another value of \<^verbatim>\<open>nextTrackingId\<close>.\<close>

definition with_next :: "nat \<Rightarrow> pass \<Rightarrow> pass" where
  "with_next n p = p\<lparr>globals := (globals p)\<lparr>nextTrackingId := n\<rparr>\<rparr>"

text \<open>
  The boxes of the tracks of a map that a detection of the current frame backs: those
  with \<^verbatim>\<open>missedFrames === 0\<close>, which the drawing loop counts.
\<close>

definition backed_boxes :: "faceMap \<Rightarrow> BoundingBox list" where
  "backed_boxes m = map (\<lambda>(k, st). boundingBox_st st) (filter (\<lambda>(k, st). missedFrames st = 0) m)"

text \<open>The track with key \<open>k\<close> in a state, if there is one.\<close>

definition lookup_track :: "tracker \<Rightarrow> nat \<Rightarrow> faceState option" where
  "lookup_track s k = map_of (trackedFaceStates s) k"

text \<open>
  A flag of a track (\<^verbatim>\<open>isEnterCounted\<close> or \<^verbatim>\<open>isExitCounted\<close>) goes from false to true between
  two values of the track.
\<close>

definition newly_set :: "(faceState \<Rightarrow> bool) \<Rightarrow> faceState option \<Rightarrow> faceState option \<Rightarrow> bool" where
  "newly_set flag before after =
     (case (before, after) of
        (Some st, Some st') \<Rightarrow> \<not> flag st \<and> flag st'
      | _ \<Rightarrow> False)"

definition flag_flip :: "(faceState \<Rightarrow> bool) \<Rightarrow> tracker \<Rightarrow> tracker \<Rightarrow> nat \<Rightarrow> bool" where
  "flag_flip flag s s' k = newly_set flag (lookup_track s k) (lookup_track s' k)"

text \<open>The number of tracks of \<open>s\<close> whose flag goes from false to true in the frame to \<open>s'\<close>.\<close>

definition frame_flips :: "(faceState \<Rightarrow> bool) \<Rightarrow> tracker \<Rightarrow> tracker \<Rightarrow> nat" where
  "frame_flips flag s s' =
     length (filter (\<lambda>(k, st). flag_flip flag s s' k) (trackedFaceStates s))"

text \<open>
  Along a list of successive states: how often the flag of the track \<open>k\<close> goes from false
  to true, and how many such transitions there are for all tracks together.
\<close>

fun flips_of :: "(faceState \<Rightarrow> bool) \<Rightarrow> nat \<Rightarrow> tracker list \<Rightarrow> nat" where
  "flips_of flag k (s # s' # ss) =
     (if flag_flip flag s s' k then 1 else 0) + flips_of flag k (s' # ss)"
| "flips_of flag k ss = 0"

fun total_flips :: "(faceState \<Rightarrow> bool) \<Rightarrow> tracker list \<Rightarrow> nat" where
  "total_flips flag (s # s' # ss) = frame_flips flag s s' + total_flips flag (s' # ss)"
| "total_flips flag ss = 0"

text \<open>
  The flag of the track \<open>k\<close> can no longer go from false to true: the id \<open>k\<close> has been given
  out, and the track is gone or its flag is set.
\<close>

definition settled :: "(faceState \<Rightarrow> bool) \<Rightarrow> tracker \<Rightarrow> nat \<Rightarrow> bool" where
  "settled flag s k \<longleftrightarrow>
     k < nextTrackingId s \<and> (case lookup_track s k of Some st \<Rightarrow> flag st | None \<Rightarrow> True)"

text \<open>
  The invariant of the states between frames: the keys of the map ascend and are below
  \<^verbatim>\<open>nextTrackingId\<close>, the field \<^verbatim>\<open>id\<close> of a track is its key, and no track has missed more
  than \<^verbatim>\<open>MAX_MISS_FRAMES\<close> frames.
\<close>

definition wf :: "tracker \<Rightarrow> bool" where
  "wf s \<longleftrightarrow>
     sorted_wrt (<) (map fst (trackedFaceStates s)) \<and>
     (\<forall>(k, st) \<in> set (trackedFaceStates s).
        k < nextTrackingId s \<and> id_st st = k \<and> missedFrames st \<le> MAX_MISS_FRAMES)"

subsection \<open>Example values\<close>

text \<open>
  A detection \<open>20\<close> wide with its left edge at \<open>x\<close>; on a canvas \<open>640\<close> wide its flipped
  centre is \<open>630 - x\<close> and the line is at \<open>320\<close>. A track without counted crossings whose
  last detection had the flipped centre \<open>c\<close>.
\<close>

definition det_at :: "real \<Rightarrow> Detection" where
  "det_at x = \<lparr>boundingBox = \<lparr>originX = x, originY = 0, width = 20, height = 20\<rparr>\<rparr>"

definition face_at :: "nat \<Rightarrow> real \<Rightarrow> side \<Rightarrow> nat \<Rightarrow> faceState" where
  "face_at k c sd m =
     \<lparr>id_st = k, prevCenterFlippedX = c, lastSide = sd,
      isEnterCounted = False, isExitCounted = False, missedFrames = m,
      boundingBox_st = \<lparr>originX = 630 - c, originY = 0, width = 20, height = 20\<rparr>\<rparr>"

definition two_tracks :: tracker where
  "two_tracks =
     \<lparr>enterCount = 1, exitCount = 0,
      trackedFaceStates = [(0, face_at 0 130 Left 5), (2, face_at 2 330 Right 2)],
      nextTrackingId = 3\<rparr>"

text \<open>
  A face that appears left of the line and then steps over it four times: to the right,
  back, to the right again and back again.
\<close>

definition oscillation :: "(Detection list \<times> real) list" where
  "oscillation =
     [([det_at 320], 640), ([det_at 300], 640), ([det_at 320], 640),
      ([det_at 300], 640), ([det_at 320], 640)]"

text \<open>The state after a first frame with two faces, one on each side of the line.\<close>

definition two_faces :: tracker where
  "two_faces =
     \<lparr>enterCount = 0, exitCount = 0,
      trackedFaceStates = [(0, face_at 0 310 Left 0), (1, face_at 1 530 Right 0)],
      nextTrackingId = 2\<rparr>"

text \<open>Frames without a detection on a canvas \<open>640\<close> wide.\<close>

definition empty_frames :: "nat \<Rightarrow> (Detection list \<times> real) list" where
  "empty_frames n = replicate n ([], 640)"

text \<open>
  Two states with the same map and the same counters but another \<^verbatim>\<open>nextTrackingId\<close>: one
  face has been seen once; or it has been seen eight times while a second face came in
  the second frame, got the id \<open>1\<close> and aged out.
\<close>

definition one_face :: tracker where
  "one_face =
     \<lparr>enterCount = 0, exitCount = 0,
      trackedFaceStates = [(0, face_at 0 310 Left 0)], nextTrackingId = 1\<rparr>"

definition one_face_later :: tracker where
  "one_face_later = one_face\<lparr>nextTrackingId := 2\<rparr>"

definition second_face_passes :: "(Detection list \<times> real) list" where
  "second_face_passes =
     [([det_at 320], 640), ([det_at 320, det_at 100], 640)] @ replicate 6 ([det_at 320], 640)"

section \<open>Auxiliary facts\<close>

subsection \<open>Map.set\<close>

lemma map_of_Map_set: "map_of (Map_set m k v) = (map_of m)(k \<mapsto> v)"
  by (induction m) (auto simp: fun_eq_iff)

lemma Map_set_fresh: "k \<notin> fst ` set m \<Longrightarrow> Map_set m k v = m @ [(k, v)]"
  by (induction m) auto

subsection \<open>The search\<close>


lemma search_inv_step:
  assumes inv: "search_inv W old seen (mf, bi, md)"
  shows "search_inv W old (seen @ [d])
           (if dist_to W old d < PROXIMITY_THRESHOLD \<and> less_minDistance (dist_to W old d) md
            then (True, int (length seen), Some (dist_to W old d))
            else (mf, bi, md))"
proof (cases mf)
  case False
  with inv have none: "\<forall>e \<in> set seen. \<not> near W old e" "bi = - 1" "md = None"
    by (auto simp: search_inv_def)
  show ?thesis
  proof (cases "dist_to W old d < PROXIMITY_THRESHOLD")
    case True
    with none show ?thesis
      by (auto simp: search_inv_def near_def nth_append not_less intro: less_imp_le less_le_trans)
  next
    case far: False
    with none False show ?thesis
      by (auto simp: search_inv_def near_def)
  qed
next
  case True
  with inv have b: "0 \<le> bi" "nat bi < length seen"
    "md = Some (dist_to W old (seen ! nat bi))" "near W old (seen ! nat bi)"
    "\<forall>e \<in> set seen. dist_to W old (seen ! nat bi) \<le> dist_to W old e"
    "\<forall>j < nat bi. dist_to W old (seen ! nat bi) < dist_to W old (seen ! j)"
    by (auto simp: search_inv_def)
  show ?thesis
  proof (cases "dist_to W old d < dist_to W old (seen ! nat bi)")
    case closer: True
    with b have "dist_to W old d < PROXIMITY_THRESHOLD"
      by (simp add: near_def)
    moreover have "\<forall>e \<in> set seen. dist_to W old d \<le> dist_to W old e"
      using b(5) closer by (meson less_le_trans less_imp_le)
    moreover have "\<forall>j < length seen. dist_to W old d < dist_to W old (seen ! j)"
      using b(5) closer by (meson less_le_trans nth_mem)
    ultimately show ?thesis using closer b(3)
      by (auto simp: search_inv_def near_def nth_append)
  next
    case notcloser: False
    then have "\<not> (dist_to W old d < PROXIMITY_THRESHOLD \<and> less_minDistance (dist_to W old d) md)"
      using b(3) by simp
    moreover have "search_inv W old (seen @ [d]) (mf, bi, md)"
      using True b notcloser by (auto simp: search_inv_def nth_append not_less)
    ultimately show ?thesis by (simp only: if_False)
  qed
qed

lemma best_match_loop_inv:
  "search_inv W old seen acc \<Longrightarrow> i = int (length seen) \<Longrightarrow>
   search_inv W old (seen @ ds) (best_match_loop W old ds i acc)"
proof (induction ds arbitrary: seen i acc)
  case Nil
  then show ?case by simp
next
  case (Cons d ds)
  obtain mf bi md where acc: "acc = (mf, bi, md)" by (cases acc)
  let ?acc' = "if dist_to W old d < PROXIMITY_THRESHOLD \<and> less_minDistance (dist_to W old d) md
            then (True, int (length seen), Some (dist_to W old d))
            else (mf, bi, md)"
  have step: "search_inv W old (seen @ [d]) ?acc'"
    using Cons.prems(1) unfolding acc by (rule search_inv_step)
  have "best_match_loop W old (d # ds) i acc = best_match_loop W old ds (i + 1) ?acc'"
    using Cons.prems(2) by (simp add: acc dist_to_def Let_def)
  moreover have "search_inv W old ((seen @ [d]) @ ds) (best_match_loop W old ds (i + 1) ?acc')"
    using step Cons.prems(2) by (intro Cons.IH) simp_all
  ultimately show ?case by simp
qed

lemma best_match_inv: "search_inv W old ds (best_match W old ds)"
proof -
  have "search_inv W old [] (False, - 1, None)"
    by (simp add: search_inv_def)
  from best_match_loop_inv [OF this, of 0 ds] show ?thesis
    by (simp add: best_match_def)
qed

lemma splice1_in_range:
  "0 \<le> i \<Longrightarrow> nat i < length xs \<Longrightarrow>
   splice1 xs i = ([xs ! nat i], take (nat i) xs @ drop (Suc (nat i)) xs)"
proof -
  assume i: "0 \<le> i" "nat i < length xs"
  then have "i < int (length xs)" by linarith
  then have idx: "nat (if i < 0 then max (int (length xs) + i) 0 else min i (int (length xs))) = nat i"
    using i by (simp add: min_def)
  have "take 1 (drop (nat i) xs) = [xs ! nat i]"
    using i(2) by (simp add: Cons_nth_drop_Suc [symmetric])
  then show ?thesis
    unfolding splice1_def Let_def idx by simp
qed


lemma best_match_found:
  "fst (best_match W old ds) \<longleftrightarrow> (\<exists>d \<in> set ds. near W old d)"
  using best_match_inv [of W old ds] by (cases "best_match W old ds") (simp add: search_inv_def)

lemma best_index_props:
  assumes "\<exists>d \<in> set ds. near W old d"
  shows "best_index W old ds < length ds"
    and "near W old (ds ! best_index W old ds)"
    and "\<forall>d \<in> set ds. dist_to W old (ds ! best_index W old ds) \<le> dist_to W old d"
    and "\<forall>j < best_index W old ds.
           dist_to W old (ds ! best_index W old ds) < dist_to W old (ds ! j)"
    and "0 \<le> fst (snd (best_match W old ds))"
  using best_match_inv [of W old ds] assms
  by (cases "best_match W old ds"; simp add: search_inv_def best_index_def)+

lemma track_step_matched:
  assumes "\<exists>d \<in> set (unmatchedDetections p). near W old d"
  shows "track_step W (k, old) p =
           Inr (matched_update W k old
                  (unmatchedDetections p ! best_index W old (unmatchedDetections p))
                  (remove_nth (best_index W old (unmatchedDetections p)) (unmatchedDetections p)) p)"
proof -
  let ?ds = "unmatchedDetections p"
  obtain mf bi md where bm: "best_match W old ?ds = (mf, bi, md)"
    by (cases "best_match W old ?ds")
  have mf: "mf" using best_match_found [of W old ?ds] assms bm by simp
  have bi: "0 \<le> bi" "nat bi < length ?ds"
    using best_index_props(1,5) [OF assms] bm by (simp_all add: best_index_def)
  show ?thesis
    using mf bi by (simp add: track_step_def bm splice1_in_range best_index_def remove_nth_def)
qed

lemma track_step_unmatched:
  assumes "\<not> (\<exists>d \<in> set (unmatchedDetections p). near W old d)"
  shows "track_step W (k, old) p = Inr (unmatched_update k old p)"
proof -
  let ?ds = "unmatchedDetections p"
  obtain mf bi md where bm: "best_match W old ?ds = (mf, bi, md)"
    by (cases "best_match W old ?ds")
  have "\<not> mf" using best_match_found [of W old ?ds] assms bm by simp
  then show ?thesis by (simp add: track_step_def bm)
qed

lemma track_step_total: "\<exists>p'. track_step W e p = Inr p'"
proof (cases e)
  case (Pair k old)
  show ?thesis
    by (cases "\<exists>d \<in> set (unmatchedDetections p). near W old d")
       (simp_all add: Pair track_step_matched track_step_unmatched)
qed

lemma match_loop_total: "\<exists>p'. match_loop W es p = Inr p'"
proof (induction es arbitrary: p)
  case Nil
  show ?case by simp
next
  case (Cons e es)
  obtain p1 where "track_step W e p = Inr p1" using track_step_total by blast
  with Cons.IH [of p1] show ?case by simp
qed

lemma detectFaces_total: "\<exists>s'. detectFaces dets W s = Inr s'"
proof -
  obtain p1 where "match_loop W (trackedFaceStates s)
      \<lparr>globals = s, unmatchedDetections = dets, NEXT_FRAME_TRACKED_FACES = []\<rparr> = Inr p1"
    using match_loop_total by blast
  then show ?thesis by (simp add: detectFaces_def Let_def)
qed

subsection \<open>One old track\<close>

lemma count_crossing_state:
  "fst (count_crossing sd cur g) =
     cur\<lparr>lastSide := sd,
         isEnterCounted := (isEnterCounted cur \<or> (lastSide cur = Left \<and> sd = Right)),
         isExitCounted := (isExitCounted cur \<or> (lastSide cur = Right \<and> sd = Left))\<rparr>"
  by (cases sd; cases "lastSide cur") (auto simp: count_crossing_def)

lemma count_crossing_globals:
  "snd (count_crossing sd cur g) =
     g\<lparr>enterCount := enterCount g
            + (if lastSide cur = Left \<and> sd = Right \<and> \<not> isEnterCounted cur then 1 else 0),
       exitCount := exitCount g
            + (if lastSide cur = Right \<and> sd = Left \<and> \<not> isExitCounted cur then 1 else 0)\<rparr>"
  by (cases sd; cases "lastSide cur") (auto simp: count_crossing_def)

lemma fst_matched_state: "fst (matched_state W old d g) = matched_face W old d"
  by (cases "new_side W d"; cases "lastSide old")
     (auto simp: matched_state_def matched_face_def Let_def count_crossing_state
        new_side_def enter_fires_def exit_fires_def)

lemma snd_matched_state:
  "snd (matched_state W old d g) =
     g\<lparr>enterCount := enterCount g + (if enter_fires W old d then 1 else 0),
       exitCount := exitCount g + (if exit_fires W old d then 1 else 0)\<rparr>"
  by (simp add: matched_state_def Let_def count_crossing_globals
        new_side_def enter_fires_def exit_fires_def)

lemma matched_update_eq:
  "matched_update W k old d rest p =
     p\<lparr>globals := (globals p)
            \<lparr>enterCount := enterCount (globals p) + (if enter_fires W old d then 1 else 0),
             exitCount := exitCount (globals p) + (if exit_fires W old d then 1 else 0)\<rparr>,
       unmatchedDetections := rest,
       NEXT_FRAME_TRACKED_FACES := Map_set (NEXT_FRAME_TRACKED_FACES p) k (matched_face W old d)\<rparr>"
proof -
  obtain st g' where ms: "matched_state W old d (globals p) = (st, g')"
    by (cases "matched_state W old d (globals p)")
  have "st = matched_face W old d"
    using fst_matched_state [of W old d "globals p"] ms by simp
  moreover have "g' = (globals p)
            \<lparr>enterCount := enterCount (globals p) + (if enter_fires W old d then 1 else 0),
             exitCount := exitCount (globals p) + (if exit_fires W old d then 1 else 0)\<rparr>"
    using snd_matched_state [of W old d "globals p"] ms by simp
  ultimately show ?thesis
    by (simp add: matched_update_def ms)
qed

lemma unmatched_update_eq:
  "unmatched_update k old p =
     (if missedFrames old + 1 \<le> MAX_MISS_FRAMES
      then p\<lparr>NEXT_FRAME_TRACKED_FACES := Map_set (NEXT_FRAME_TRACKED_FACES p) k (aged old)\<rparr>
      else p)"
  by (simp add: unmatched_update_def aged_def Let_def)

text \<open>The two ways a step of the outer loop can go.\<close>

lemma track_step_cases:
  assumes "track_step W (k, old) p = Inr p1"
  obtains (matched) j where
      "j = best_index W old (unmatchedDetections p)"
      "j < length (unmatchedDetections p)"
      "near W old (unmatchedDetections p ! j)"
      "p1 = matched_update W k old (unmatchedDetections p ! j)
              (remove_nth j (unmatchedDetections p)) p"
  | (unmatched)
      "\<forall>d \<in> set (unmatchedDetections p). \<not> near W old d"
      "p1 = unmatched_update k old p"
proof (cases "\<exists>d \<in> set (unmatchedDetections p). near W old d")
  case True
  from assms track_step_matched [OF True, of k] best_index_props(1,2) [OF True] matched
  show ?thesis by simp
next
  case False
  from assms track_step_unmatched [OF False, of k] False unmatched
  show ?thesis by simp
qed

lemma match_loop_Cons:
  assumes "match_loop W (e # es) p = Inr p'"
  obtains p1 where "track_step W e p = Inr p1" "match_loop W es p1 = Inr p'"
  using assms by (cases "track_step W e p") simp_all

subsection \<open>The outer loop\<close>

lemma track_step_globals:
  assumes "track_step W (k, old) p = Inr p1"
  shows "nextTrackingId (globals p1) = nextTrackingId (globals p)"
    and "trackedFaceStates (globals p1) = trackedFaceStates (globals p)"
    and "enterCount (globals p) \<le> enterCount (globals p1)"
    and "exitCount (globals p) \<le> exitCount (globals p1)"
  using assms
  by (cases rule: track_step_cases; simp add: matched_update_eq unmatched_update_eq)+

lemma match_loop_globals:
  assumes "match_loop W es p = Inr p'"
  shows "nextTrackingId (globals p') = nextTrackingId (globals p)
       \<and> trackedFaceStates (globals p') = trackedFaceStates (globals p)
       \<and> enterCount (globals p) \<le> enterCount (globals p')
       \<and> exitCount (globals p) \<le> exitCount (globals p')"
  using assms
proof (induction es arbitrary: p)
  case Nil
  then show ?case by simp
next
  case (Cons e es)
  obtain k old where e: "e = (k, old)" by (cases e)
  from Cons.prems obtain p1 where
    p1: "track_step W (k, old) p = Inr p1" "match_loop W es p1 = Inr p'"
    unfolding e by (rule match_loop_Cons)
  from track_step_globals [OF p1(1)] Cons.IH [OF p1(2)] show ?case
    by simp
qed

text \<open>What a step does to the map and to the pool of detections.\<close>

lemma track_step_NEXT:
  assumes "track_step W (k, old) p = Inr p1"
  shows "(\<exists>d \<in> set (unmatchedDetections p). near W old d \<and>
            NEXT_FRAME_TRACKED_FACES p1
              = Map_set (NEXT_FRAME_TRACKED_FACES p) k (matched_face W old d))
       \<or> (missedFrames old + 1 \<le> MAX_MISS_FRAMES \<and>
            NEXT_FRAME_TRACKED_FACES p1
              = Map_set (NEXT_FRAME_TRACKED_FACES p) k (aged old))
       \<or> (\<not> missedFrames old + 1 \<le> MAX_MISS_FRAMES \<and>
            NEXT_FRAME_TRACKED_FACES p1 = NEXT_FRAME_TRACKED_FACES p)"
  using assms
proof (cases rule: track_step_cases)
  case (matched j)
  then have "unmatchedDetections p ! j \<in> set (unmatchedDetections p)"
    by simp
  with matched show ?thesis
    by (auto simp: matched_update_eq)
next
  case unmatched
  then show ?thesis
    by (simp add: unmatched_update_eq)
qed

lemma set_remove_nth: "set (remove_nth j xs) \<subseteq> set xs"
  by (auto simp: remove_nth_def dest: in_set_takeD in_set_dropD)

lemma track_step_pool:
  assumes "track_step W (k, old) p = Inr p1"
  shows "set (unmatchedDetections p1) \<subseteq> set (unmatchedDetections p)"
  using assms
  by (cases rule: track_step_cases)
     (auto simp: matched_update_eq unmatched_update_eq dest: set_remove_nth [THEN subsetD])

lemma match_loop_pool:
  assumes "match_loop W es p = Inr p'"
  shows "set (unmatchedDetections p') \<subseteq> set (unmatchedDetections p)"
  using assms
proof (induction es arbitrary: p)
  case Nil
  then show ?case by simp
next
  case (Cons e es)
  obtain k old where e: "e = (k, old)" by (cases e)
  from Cons.prems obtain p1 where
    p1: "track_step W (k, old) p = Inr p1" "match_loop W es p1 = Inr p'"
    unfolding e by (rule match_loop_Cons)
  from track_step_pool [OF p1(1)] Cons.IH [OF p1(2)] show ?case
    by blast
qed

lemma track_step_other_key:
  assumes "track_step W (k, old) p = Inr p1" and "k' \<noteq> k"
  shows "map_of (NEXT_FRAME_TRACKED_FACES p1) k' = map_of (NEXT_FRAME_TRACKED_FACES p) k'"
  using track_step_NEXT [OF assms(1)] assms(2)
  by (auto simp: map_of_Map_set)

lemma match_loop_other_key:
  assumes "match_loop W es p = Inr p'" and "k' \<notin> fst ` set es"
  shows "map_of (NEXT_FRAME_TRACKED_FACES p') k' = map_of (NEXT_FRAME_TRACKED_FACES p) k'"
  using assms
proof (induction es arbitrary: p)
  case Nil
  then show ?case by simp
next
  case (Cons e es)
  obtain k old where e: "e = (k, old)" by (cases e)
  from Cons.prems(1) obtain p1 where
    p1: "track_step W (k, old) p = Inr p1" "match_loop W es p1 = Inr p'"
    unfolding e by (rule match_loop_Cons)
  from Cons.prems(2) have "k' \<noteq> k" "k' \<notin> fst ` set es"
    by (auto simp: e)
  with track_step_other_key [OF p1(1)] Cons.IH [OF p1(2)] show ?case
    by simp
qed

text \<open>
  With distinct keys every \<^verbatim>\<open>set\<close> of the loop appends: the keys of the new map are the
  keys of the old tracks that survive, in their order.
\<close>

lemma track_step_append:
  assumes "track_step W (k, old) p = Inr p1"
    and "k \<notin> fst ` set (NEXT_FRAME_TRACKED_FACES p)"
  obtains (kept) v where
      "NEXT_FRAME_TRACKED_FACES p1 = NEXT_FRAME_TRACKED_FACES p @ [(k, v)]"
  | (dropped) "NEXT_FRAME_TRACKED_FACES p1 = NEXT_FRAME_TRACKED_FACES p"
  using track_step_NEXT [OF assms(1)] assms(2)
  by (auto simp: Map_set_fresh)

lemma track_step_distinct:
  assumes "track_step W (k, old) p = Inr p1"
    and "distinct (map fst (NEXT_FRAME_TRACKED_FACES p) @ k # ks)"
  shows "distinct (map fst (NEXT_FRAME_TRACKED_FACES p1) @ ks)"
proof -
  from assms(2) have fresh: "k \<notin> fst ` set (NEXT_FRAME_TRACKED_FACES p)"
    by auto
  from assms(1) fresh show ?thesis
  proof (cases rule: track_step_append)
    case (kept v)
    with assms(2) show ?thesis by simp
  next
    case dropped
    with assms(2) show ?thesis by simp
  qed
qed

lemma match_loop_keys:
  assumes "match_loop W es p = Inr p'"
    and "distinct (map fst (NEXT_FRAME_TRACKED_FACES p) @ map fst es)"
  shows "\<exists>P. map fst (NEXT_FRAME_TRACKED_FACES p')
               = map fst (NEXT_FRAME_TRACKED_FACES p) @ filter P (map fst es)"
  using assms
proof (induction es arbitrary: p)
  case Nil
  then show ?case by simp
next
  case (Cons e es)
  obtain k old where e: "e = (k, old)" by (cases e)
  from Cons.prems(1) obtain p1 where
    p1: "track_step W (k, old) p = Inr p1" "match_loop W es p1 = Inr p'"
    unfolding e by (rule match_loop_Cons)
  from Cons.prems(2) have fresh: "k \<notin> fst ` set (NEXT_FRAME_TRACKED_FACES p)"
    and later: "k \<notin> set (map fst es)"
    by (auto simp: e)
  have dist1: "distinct (map fst (NEXT_FRAME_TRACKED_FACES p1) @ map fst es)"
    using Cons.prems(2) unfolding e by (intro track_step_distinct [OF p1(1)]) simp
  from Cons.IH [OF p1(2) dist1] obtain P where
    P: "map fst (NEXT_FRAME_TRACKED_FACES p')
          = map fst (NEXT_FRAME_TRACKED_FACES p1) @ filter P (map fst es)"
    by blast
  have nok: "filter (\<lambda>x. x \<noteq> k \<and> P x) (map fst es) = filter P (map fst es)"
    and withk: "filter (\<lambda>x. x = k \<or> P x) (map fst es) = filter P (map fst es)"
    using later by (auto intro: filter_cong)
  from p1(1) fresh show ?case
  proof (cases rule: track_step_append)
    case (kept v)
    have "map fst (NEXT_FRAME_TRACKED_FACES p')
            = map fst (NEXT_FRAME_TRACKED_FACES p)
              @ filter (\<lambda>x. x = k \<or> P x) (map fst (e # es))"
      unfolding P kept e by (simp add: withk)
    then show ?thesis by blast
  next
    case dropped
    have "map fst (NEXT_FRAME_TRACKED_FACES p')
            = map fst (NEXT_FRAME_TRACKED_FACES p)
              @ filter (\<lambda>x. x \<noteq> k \<and> P x) (map fst (e # es))"
      unfolding P dropped e by (simp add: nok)
    then show ?thesis by blast
  qed
qed

lemma match_loop_entry:
  assumes "match_loop W es p = Inr p'"
    and "distinct (map fst (NEXT_FRAME_TRACKED_FACES p) @ map fst es)"
    and "(k, old) \<in> set es"
  shows "(\<exists>d \<in> set (unmatchedDetections p). near W old d \<and>
            map_of (NEXT_FRAME_TRACKED_FACES p') k = Some (matched_face W old d))
       \<or> map_of (NEXT_FRAME_TRACKED_FACES p') k
            = (if missedFrames old + 1 \<le> MAX_MISS_FRAMES then Some (aged old) else None)"
  using assms
proof (induction es arbitrary: p)
  case Nil
  then show ?case by simp
next
  case (Cons e es)
  obtain k0 old0 where e: "e = (k0, old0)" by (cases e)
  from Cons.prems(1) obtain p1 where
    p1: "track_step W (k0, old0) p = Inr p1" "match_loop W es p1 = Inr p'"
    unfolding e by (rule match_loop_Cons)
  from Cons.prems(2) have fresh: "k0 \<notin> fst ` set (NEXT_FRAME_TRACKED_FACES p)"
    and later: "k0 \<notin> fst ` set es"
    and dist: "distinct (map fst (NEXT_FRAME_TRACKED_FACES p) @ map fst es)"
    by (auto simp: e)
  have dist1: "distinct (map fst (NEXT_FRAME_TRACKED_FACES p1) @ map fst es)"
    using Cons.prems(2) unfolding e by (intro track_step_distinct [OF p1(1)]) simp
  show ?case
  proof (cases "(k, old) \<in> set es")
    case True
    from Cons.IH [OF p1(2) dist1 True] track_step_pool [OF p1(1)] show ?thesis
      by blast
  next
    case False
    with Cons.prems(3) have here: "k = k0" "old = old0" by (auto simp: e)
    have none: "map_of (NEXT_FRAME_TRACKED_FACES p) k0 = None"
      using fresh by (simp add: map_of_eq_None_iff)
    from track_step_NEXT [OF p1(1)] match_loop_other_key [OF p1(2) later] none
    show ?thesis
      unfolding here by (auto simp: map_of_Map_set)
  qed
qed

subsection \<open>New tracks\<close>

lemma new_track_eq:
  "new_track W d p =
     p\<lparr>globals := (globals p)\<lparr>nextTrackingId := nextTrackingId (globals p) + 1\<rparr>,
       NEXT_FRAME_TRACKED_FACES :=
         Map_set (NEXT_FRAME_TRACKED_FACES p) (nextTrackingId (globals p))
           (new_face W (nextTrackingId (globals p)) d)\<rparr>"
  by (simp add: new_track_def new_face_def new_side_def Let_def)

lemma spawn_loop_eq:
  assumes "\<forall>k \<in> fst ` set (NEXT_FRAME_TRACKED_FACES p). k < nextTrackingId (globals p)"
  shows "spawn_loop W ds p =
     p\<lparr>globals := (globals p)\<lparr>nextTrackingId := nextTrackingId (globals p) + length ds\<rparr>,
       NEXT_FRAME_TRACKED_FACES :=
         NEXT_FRAME_TRACKED_FACES p @ spawned W (nextTrackingId (globals p)) ds\<rparr>"
  using assms
proof (induction ds arbitrary: p)
  case Nil
  show ?case by (simp add: spawned_def)
next
  case (Cons d ds)
  let ?n = "nextTrackingId (globals p)"
  let ?p1 = "new_track W d p"
  have fresh: "?n \<notin> fst ` set (NEXT_FRAME_TRACKED_FACES p)"
    using Cons.prems by auto
  have next1: "NEXT_FRAME_TRACKED_FACES ?p1
                 = NEXT_FRAME_TRACKED_FACES p @ [(?n, new_face W ?n d)]"
    by (simp add: new_track_eq Map_set_fresh [OF fresh])
  have g1: "globals ?p1 = (globals p)\<lparr>nextTrackingId := ?n + 1\<rparr>"
    by (simp add: new_track_eq)
  have pool1: "unmatchedDetections ?p1 = unmatchedDetections p"
    by (simp add: new_track_eq)
  have below: "\<forall>k \<in> fst ` set (NEXT_FRAME_TRACKED_FACES ?p1). k < nextTrackingId (globals ?p1)"
    using Cons.prems unfolding next1 g1 by auto
  have "spawn_loop W (d # ds) p = spawn_loop W ds ?p1"
    by simp
  also note Cons.IH [OF below]
  finally show ?case
    unfolding next1 g1 by (simp add: pool1 spawned_def)
qed

subsection \<open>A whole frame\<close>

lemma matching_pass:
  "match_loop W (trackedFaceStates s) (start_pass dets s) = Inr (matching_pass W dets s)"
proof -
  obtain p1 where "match_loop W (trackedFaceStates s) (start_pass dets s) = Inr p1"
    using match_loop_total by blast
  then show ?thesis by (simp add: matching_pass_def)
qed

lemma match_loop_subset_keys:
  assumes "match_loop W es p = Inr p'"
  shows "fst ` set (NEXT_FRAME_TRACKED_FACES p')
           \<subseteq> fst ` set (NEXT_FRAME_TRACKED_FACES p) \<union> fst ` set es"
proof
  fix k assume "k \<in> fst ` set (NEXT_FRAME_TRACKED_FACES p')"
  then have some: "map_of (NEXT_FRAME_TRACKED_FACES p') k \<noteq> None"
    by (simp add: map_of_eq_None_iff)
  show "k \<in> fst ` set (NEXT_FRAME_TRACKED_FACES p) \<union> fst ` set es"
  proof (rule ccontr)
    assume "k \<notin> fst ` set (NEXT_FRAME_TRACKED_FACES p) \<union> fst ` set es"
    then have "k \<notin> fst ` set es" "map_of (NEXT_FRAME_TRACKED_FACES p) k = None"
      by (simp_all add: map_of_eq_None_iff)
    with match_loop_other_key [OF assms, of k] some show False
      by simp
  qed
qed

lemma matching_pass_globals:
  "nextTrackingId (globals (matching_pass W dets s)) = nextTrackingId s"
  "trackedFaceStates (globals (matching_pass W dets s)) = trackedFaceStates s"
  "enterCount s \<le> enterCount (globals (matching_pass W dets s))"
  "exitCount s \<le> exitCount (globals (matching_pass W dets s))"
  using match_loop_globals [OF matching_pass [of W s dets]]
  by (simp_all add: start_pass_def)

lemma matching_pass_pool:
  "set (unmatchedDetections (matching_pass W dets s)) \<subseteq> set dets"
  using match_loop_pool [OF matching_pass [of W s dets]]
  by (simp add: start_pass_def)

lemma matching_pass_subset_keys:
  "fst ` set (NEXT_FRAME_TRACKED_FACES (matching_pass W dets s))
     \<subseteq> fst ` set (trackedFaceStates s)"
  using match_loop_subset_keys [OF matching_pass [of W s dets]]
  by (simp add: start_pass_def)

text \<open>The result of a frame in a state whose keys are below \<^verbatim>\<open>nextTrackingId\<close>.\<close>

lemma detectFaces_eq:
  assumes "\<forall>k \<in> fst ` set (trackedFaceStates s). k < nextTrackingId s"
  shows "detectFaces dets W s =
           Inr ((globals (matching_pass W dets s))
                 \<lparr>trackedFaceStates :=
                    NEXT_FRAME_TRACKED_FACES (matching_pass W dets s)
                    @ spawned W (nextTrackingId s) (unmatchedDetections (matching_pass W dets s)),
                  nextTrackingId :=
                    nextTrackingId s + length (unmatchedDetections (matching_pass W dets s))\<rparr>)"
proof -
  let ?p1 = "matching_pass W dets s"
  have n: "nextTrackingId (globals ?p1) = nextTrackingId s"
    by (rule matching_pass_globals)
  have "\<forall>k \<in> fst ` set (NEXT_FRAME_TRACKED_FACES ?p1). k < nextTrackingId (globals ?p1)"
    using assms matching_pass_subset_keys [of W dets s] unfolding n by blast
  from spawn_loop_eq [OF this, of W "unmatchedDetections ?p1"]
    matching_pass [of W s dets]
  show ?thesis
    by (simp add: detectFaces_def start_pass_def n)
qed

lemma wf_distinct: "wf s \<Longrightarrow> distinct (map fst (trackedFaceStates s))"
  by (simp add: wf_def strict_sorted_iff)

lemma wf_below: "wf s \<Longrightarrow> (k, st) \<in> set (trackedFaceStates s) \<Longrightarrow> k < nextTrackingId s"
  by (auto simp: wf_def)

lemma wf_detectFaces:
  assumes "wf s"
  shows "detectFaces dets W s =
           Inr ((globals (matching_pass W dets s))
                 \<lparr>trackedFaceStates :=
                    NEXT_FRAME_TRACKED_FACES (matching_pass W dets s)
                    @ spawned W (nextTrackingId s) (unmatchedDetections (matching_pass W dets s)),
                  nextTrackingId :=
                    nextTrackingId s + length (unmatchedDetections (matching_pass W dets s))\<rparr>)"
  using assms by (intro detectFaces_eq) (auto simp: wf_def)

lemma frame_fields:
  assumes "wf s" and "detectFaces dets W s = Inr s'"
  shows "trackedFaceStates s' =
           NEXT_FRAME_TRACKED_FACES (matching_pass W dets s)
           @ spawned W (nextTrackingId s) (unmatchedDetections (matching_pass W dets s))"
    and "nextTrackingId s' =
           nextTrackingId s + length (unmatchedDetections (matching_pass W dets s))"
    and "enterCount s' = enterCount (globals (matching_pass W dets s))"
    and "exitCount s' = exitCount (globals (matching_pass W dets s))"
  using assms(2) unfolding wf_detectFaces [OF assms(1)] by auto

lemma frame_keys:
  assumes "wf s"
  shows "\<exists>P. map fst (NEXT_FRAME_TRACKED_FACES (matching_pass W dets s))
               = filter P (map fst (trackedFaceStates s))"
  using match_loop_keys [OF matching_pass [of W s dets]] wf_distinct [OF assms]
  by (simp add: start_pass_def)

lemma spawned_keys: "map fst (spawned W n ds) = [n..<n + length ds]"
proof -
  have "map fst (spawned W n ds) = map fst (enumerate n ds)"
    by (simp add: spawned_def case_prod_beta comp_def)
  then show ?thesis by (simp add: map_fst_enumerate)
qed

lemma spawned_lookup:
  "map_of (spawned W n ds) k
     = (if n \<le> k \<and> k < n + length ds then Some (new_face W k (ds ! (k - n))) else None)"
proof (induction ds arbitrary: n)
  case Nil
  show ?case by (simp add: spawned_def)
next
  case (Cons d ds)
  show ?case
  proof (cases "k = n")
    case True
    then show ?thesis by (simp add: spawned_def)
  next
    case False
    have "map_of (spawned W n (d # ds)) k = map_of (spawned W (Suc n) ds) k"
      using False by (simp add: spawned_def)
    also have "\<dots> = (if Suc n \<le> k \<and> k < Suc n + length ds
                       then Some (new_face W k (ds ! (k - Suc n))) else None)"
      by (rule Cons.IH)
    also have "\<dots> = (if n \<le> k \<and> k < n + length (d # ds)
                       then Some (new_face W k ((d # ds) ! (k - n))) else None)"
      using False by (auto simp: nth_Cons' Suc_diff_le)
    finally show ?thesis .
  qed
qed

text \<open>The track of a key after a frame: an old key, a key that is gone, a new key.\<close>

lemma frame_lookup_old:
  assumes "wf s" and "detectFaces dets W s = Inr s'" and "k < nextTrackingId s"
  shows "lookup_track s' k = map_of (NEXT_FRAME_TRACKED_FACES (matching_pass W dets s)) k"
proof -
  have "map_of (spawned W (nextTrackingId s) (unmatchedDetections (matching_pass W dets s))) k
          = None"
    using assms(3) unfolding spawned_lookup by simp
  then show ?thesis
    unfolding lookup_track_def frame_fields(1) [OF assms(1,2)]
    by (simp add: map_add_def split: option.split)
qed

lemma frame_lookup_new:
  assumes "wf s" and "detectFaces dets W s = Inr s'" and "nextTrackingId s \<le> k"
  shows "lookup_track s' k =
           (if k < nextTrackingId s'
            then Some (new_face W k
                         (unmatchedDetections (matching_pass W dets s) ! (k - nextTrackingId s)))
            else None)"
proof -
  have "k \<notin> fst ` set (trackedFaceStates s)"
    using wf_below [OF assms(1)] assms(3) by fastforce
  then have "k \<notin> fst ` set (NEXT_FRAME_TRACKED_FACES (matching_pass W dets s))"
    using matching_pass_subset_keys [of W dets s] by blast
  then have "map_of (NEXT_FRAME_TRACKED_FACES (matching_pass W dets s)) k = None"
    by (simp add: map_of_eq_None_iff)
  then show ?thesis
    unfolding lookup_track_def frame_fields(1) [OF assms(1,2)] frame_fields(2) [OF assms(1,2)]
    using assms(3) by (simp add: map_add_def spawned_lookup)
qed

lemma frame_old_track:
  assumes "wf s" and "detectFaces dets W s = Inr s'"
    and "(k, old) \<in> set (trackedFaceStates s)"
  shows "(\<exists>d \<in> set dets. near W old d \<and> lookup_track s' k = Some (matched_face W old d))
       \<or> lookup_track s' k
            = (if missedFrames old + 1 \<le> MAX_MISS_FRAMES then Some (aged old) else None)"
proof -
  have "distinct (map fst (NEXT_FRAME_TRACKED_FACES (start_pass dets s))
                  @ map fst (trackedFaceStates s))"
    using wf_distinct [OF assms(1)] by (simp add: start_pass_def)
  from match_loop_entry [OF matching_pass this assms(3)]
    frame_lookup_old [OF assms(1,2) wf_below [OF assms(1,3)]]
  show ?thesis by (simp add: start_pass_def)
qed

lemma frame_absent_key:
  assumes "wf s" and "detectFaces dets W s = Inr s'"
    and "k < nextTrackingId s" and "lookup_track s k = None"
  shows "lookup_track s' k = None"
proof -
  have "k \<notin> fst ` set (trackedFaceStates s)"
    using assms(4) by (simp add: lookup_track_def map_of_eq_None_iff)
  from match_loop_other_key [OF matching_pass this, of W dets]
    frame_lookup_old [OF assms(1,2,3)]
  show ?thesis by (simp add: start_pass_def)
qed

lemma frame_track_cases:
  assumes "wf s" and "detectFaces dets W s = Inr s'" and "lookup_track s' k = Some st"
  obtains (matched) old d where
      "lookup_track s k = Some old" "d \<in> set dets" "near W old d" "st = matched_face W old d"
  | (ghost) old where
      "lookup_track s k = Some old" "missedFrames old + 1 \<le> MAX_MISS_FRAMES" "st = aged old"
  | (new) d where
      "nextTrackingId s \<le> k" "k < nextTrackingId s'" "d \<in> set dets" "st = new_face W k d"
proof (cases "k < nextTrackingId s")
  case True
  have "lookup_track s k \<noteq> None"
    using frame_absent_key [OF assms(1,2) True] assms(3) by auto
  then obtain old where old: "lookup_track s k = Some old"
    by blast
  then have "(k, old) \<in> set (trackedFaceStates s)"
    by (simp add: lookup_track_def map_of_SomeD)
  from frame_old_track [OF assms(1,2) this] assms(3) old matched ghost show ?thesis
    by (auto split: if_splits)
next
  case False
  let ?pool = "unmatchedDetections (matching_pass W dets s)"
  from False have ge: "nextTrackingId s \<le> k" by simp
  from frame_lookup_new [OF assms(1,2) ge] assms(3) have lt: "k < nextTrackingId s'"
    and st: "st = new_face W k (?pool ! (k - nextTrackingId s))"
    by (auto split: if_splits)
  have "k - nextTrackingId s < length ?pool"
    using lt ge frame_fields(2) [OF assms(1,2)] by simp
  then have "?pool ! (k - nextTrackingId s) \<in> set ?pool"
    by simp
  with matching_pass_pool [of W dets s] have "?pool ! (k - nextTrackingId s) \<in> set dets"
    by auto
  from new [OF ge lt this st] show ?thesis .
qed

lemma frame_sorted:
  assumes "wf s" and "detectFaces dets W s = Inr s'"
  shows "sorted_wrt (<) (map fst (trackedFaceStates s'))"
proof -
  let ?p1 = "matching_pass W dets s"
  from frame_keys [OF assms(1), of W dets] obtain P where
    P: "map fst (NEXT_FRAME_TRACKED_FACES ?p1) = filter P (map fst (trackedFaceStates s))"
    by blast
  have srt: "sorted_wrt (<) (map fst (trackedFaceStates s))"
    and below: "\<forall>k \<in> set (map fst (trackedFaceStates s)). k < nextTrackingId s"
    using assms(1) by (auto simp: wf_def)
  have "map fst (trackedFaceStates s')
          = filter P (map fst (trackedFaceStates s))
            @ [nextTrackingId s..<nextTrackingId s + length (unmatchedDetections ?p1)]"
    unfolding frame_fields(1) [OF assms] map_append P spawned_keys ..
  moreover have "sorted_wrt (<) (filter P (map fst (trackedFaceStates s)))"
    using srt by (rule sorted_wrt_filter)
  moreover have "\<forall>x \<in> set (filter P (map fst (trackedFaceStates s))).
      \<forall>y \<in> set [nextTrackingId s..<nextTrackingId s + length (unmatchedDetections ?p1)]. x < y"
    using below by auto
  ultimately show ?thesis
    by (simp only: sorted_wrt_append sorted_wrt_upt simp_thms)
qed

lemma matched_face_fields:
  "id_st (matched_face W old d) = id_st old"
  "missedFrames (matched_face W old d) = 0"
  "prevCenterFlippedX (matched_face W old d) = getFlippedBoxCenter (boundingBox d) W"
  "boundingBox_st (matched_face W old d) = boundingBox d"
  "lastSide (matched_face W old d) = new_side W d"
  "isEnterCounted (matched_face W old d) = (isEnterCounted old \<or> enter_fires W old d)"
  "isExitCounted (matched_face W old d) = (isExitCounted old \<or> exit_fires W old d)"
  by (simp_all add: matched_face_def)

lemma aged_fields:
  "id_st (aged old) = id_st old"
  "missedFrames (aged old) = missedFrames old + 1"
  "prevCenterFlippedX (aged old) = prevCenterFlippedX old"
  "boundingBox_st (aged old) = boundingBox_st old"
  "lastSide (aged old) = lastSide old"
  "isEnterCounted (aged old) = isEnterCounted old"
  "isExitCounted (aged old) = isExitCounted old"
  by (simp_all add: aged_def)

lemma new_face_fields:
  "id_st (new_face W k d) = k"
  "missedFrames (new_face W k d) = 0"
  "prevCenterFlippedX (new_face W k d) = getFlippedBoxCenter (boundingBox d) W"
  "boundingBox_st (new_face W k d) = boundingBox d"
  "lastSide (new_face W k d) = new_side W d"
  "isEnterCounted (new_face W k d) = False"
  "isExitCounted (new_face W k d) = False"
  by (simp_all add: new_face_def)

lemma wf_lookup:
  assumes "wf s" and "lookup_track s k = Some st"
  shows "k < nextTrackingId s" and "id_st st = k" and "missedFrames st \<le> MAX_MISS_FRAMES"
proof -
  from assms(2) have "(k, st) \<in> set (trackedFaceStates s)"
    by (simp add: lookup_track_def map_of_SomeD)
  with assms(1) show "k < nextTrackingId s" "id_st st = k" "missedFrames st \<le> MAX_MISS_FRAMES"
    by (auto simp: wf_def)
qed

lemma frame_next_mono:
  assumes "wf s" and "detectFaces dets W s = Inr s'"
  shows "nextTrackingId s \<le> nextTrackingId s'"
  using frame_fields(2) [OF assms] by simp

text \<open>The invariant holds in every state the program reaches.\<close>

lemma wf_initial: "wf initial"
  by (simp add: wf_def initial_def)

lemma wf_frame_preserved:
  assumes "wf s" and "detectFaces dets W s = Inr s'"
  shows "wf s'"
proof -
  have srt: "sorted_wrt (<) (map fst (trackedFaceStates s'))"
    using assms by (rule frame_sorted)
  then have dist: "distinct (map fst (trackedFaceStates s'))"
    by (simp add: strict_sorted_iff)
  have "k < nextTrackingId s' \<and> id_st st = k \<and> missedFrames st \<le> MAX_MISS_FRAMES"
    if "(k, st) \<in> set (trackedFaceStates s')" for k st
  proof -
    have look: "lookup_track s' k = Some st"
      using that dist by (simp add: lookup_track_def)
    from assms look show ?thesis
    proof (cases rule: frame_track_cases)
      case (matched old d)
      with wf_lookup [OF assms(1) matched(1)] frame_next_mono [OF assms] show ?thesis
        by (simp add: matched_face_fields)
    next
      case (ghost old)
      with wf_lookup [OF assms(1) ghost(1)] frame_next_mono [OF assms] show ?thesis
        by (simp add: aged_fields)
    next
      case (new d)
      then show ?thesis by (simp add: new_face_fields)
    qed
  qed
  with srt show ?thesis
    by (auto simp: wf_def)
qed

lemma reachable_wf: "reachable s \<Longrightarrow> wf s"
  by (induction rule: reachable.induct) (auto intro: wf_initial wf_frame_preserved)

subsection \<open>A frame without detections\<close>

lemma track_step_empty_pool:
  assumes "unmatchedDetections p = []"
  shows "track_step W (k, old) p = Inr (unmatched_update k old p)"
  using assms by (intro track_step_unmatched) simp

lemma match_loop_empty_pool:
  assumes "unmatchedDetections p = []"
    and "distinct (map fst (NEXT_FRAME_TRACKED_FACES p) @ map fst es)"
  shows "match_loop W es p =
           Inr (p\<lparr>NEXT_FRAME_TRACKED_FACES :=
                    NEXT_FRAME_TRACKED_FACES p
                    @ map (\<lambda>(k, st). (k, st\<lparr>missedFrames := missedFrames st + 1\<rparr>))
                        (filter (\<lambda>(k, st). missedFrames st + 1 \<le> MAX_MISS_FRAMES) es)\<rparr>)"
  using assms
proof (induction es arbitrary: p)
  case Nil
  show ?case by simp
next
  case (Cons e es)
  obtain k old where e: "e = (k, old)" by (cases e)
  let ?p1 = "unmatched_update k old p"
  have step: "track_step W (k, old) p = Inr ?p1"
    using Cons.prems(1) by (rule track_step_empty_pool)
  have fresh: "k \<notin> fst ` set (NEXT_FRAME_TRACKED_FACES p)"
    using Cons.prems(2) by (auto simp: e)
  have pool1: "unmatchedDetections ?p1 = []"
    using Cons.prems(1) by (simp add: unmatched_update_eq)
  have dist1: "distinct (map fst (NEXT_FRAME_TRACKED_FACES ?p1) @ map fst es)"
    using Cons.prems(2) unfolding e by (intro track_step_distinct [OF step]) simp
  have "match_loop W (e # es) p = match_loop W es ?p1"
    by (simp add: e step)
  also note Cons.IH [OF pool1 dist1]
  finally show ?case
    by (simp add: e unmatched_update_eq Map_set_fresh [OF fresh] aged_def)
qed

lemma detectFaces_no_detections:
  assumes "distinct (map fst (trackedFaceStates s))"
  shows "detectFaces [] W s =
           Inr (s\<lparr>trackedFaceStates :=
                    map (\<lambda>(k, st). (k, st\<lparr>missedFrames := missedFrames st + 1\<rparr>))
                      (filter (\<lambda>(k, st). missedFrames st + 1 \<le> MAX_MISS_FRAMES)
                         (trackedFaceStates s))\<rparr>)"
proof -
  let ?p0 = "\<lparr>globals = s, unmatchedDetections = [], NEXT_FRAME_TRACKED_FACES = []\<rparr>"
  have "distinct (map fst (NEXT_FRAME_TRACKED_FACES ?p0) @ map fst (trackedFaceStates s))"
    using assms by simp
  from match_loop_empty_pool [of ?p0, OF _ this, of W] show ?thesis
    by (simp add: detectFaces_def)
qed

subsection \<open>Detections and the tracks they back\<close>

lemma mset_remove_nth:
  assumes "j < length xs"
  shows "mset (map f (remove_nth j xs)) + {#f (xs ! j)#} = mset (map f xs)"
proof -
  have "xs = take j xs @ xs ! j # drop (Suc j) xs"
    using assms by (rule id_take_nth_drop)
  then have "mset (map f xs) = mset (map f (take j xs @ xs ! j # drop (Suc j) xs))"
    by simp
  then show ?thesis
    by (simp add: remove_nth_def)
qed

lemma backed_boxes_append:
  "backed_boxes (m @ [(k, st)])
     = backed_boxes m @ (if missedFrames st = 0 then [boundingBox_st st] else [])"
  by (simp add: backed_boxes_def)

lemma track_step_mset:
  assumes "track_step W (k, old) p = Inr p1"
    and "k \<notin> fst ` set (NEXT_FRAME_TRACKED_FACES p)"
  shows "mset (map boundingBox (unmatchedDetections p1))
           + mset (backed_boxes (NEXT_FRAME_TRACKED_FACES p1))
         = mset (map boundingBox (unmatchedDetections p))
           + mset (backed_boxes (NEXT_FRAME_TRACKED_FACES p))"
  using assms(1)
proof (cases rule: track_step_cases)
  case (matched j)
  let ?d = "unmatchedDetections p ! j"
  have nxt: "NEXT_FRAME_TRACKED_FACES p1
               = NEXT_FRAME_TRACKED_FACES p @ [(k, matched_face W old ?d)]"
    and pool: "unmatchedDetections p1 = remove_nth j (unmatchedDetections p)"
    unfolding matched(4) by (simp_all add: matched_update_eq Map_set_fresh [OF assms(2)])
  have "backed_boxes (NEXT_FRAME_TRACKED_FACES p1)
          = backed_boxes (NEXT_FRAME_TRACKED_FACES p) @ [boundingBox ?d]"
    unfolding nxt backed_boxes_append by (simp add: matched_face_def)
  with mset_remove_nth [OF matched(2), of boundingBox] show ?thesis
    unfolding pool by simp
next
  case unmatched
  have pool: "unmatchedDetections p1 = unmatchedDetections p"
    unfolding unmatched(2) by (simp add: unmatched_update_eq)
  have "backed_boxes (NEXT_FRAME_TRACKED_FACES p1) = backed_boxes (NEXT_FRAME_TRACKED_FACES p)"
    unfolding unmatched(2)
    by (simp add: unmatched_update_eq Map_set_fresh [OF assms(2)] backed_boxes_append aged_def)
  with pool show ?thesis by simp
qed

lemma match_loop_mset:
  assumes "match_loop W es p = Inr p'"
    and "distinct (map fst (NEXT_FRAME_TRACKED_FACES p) @ map fst es)"
  shows "mset (map boundingBox (unmatchedDetections p'))
           + mset (backed_boxes (NEXT_FRAME_TRACKED_FACES p'))
         = mset (map boundingBox (unmatchedDetections p))
           + mset (backed_boxes (NEXT_FRAME_TRACKED_FACES p))"
  using assms
proof (induction es arbitrary: p)
  case Nil
  then show ?case by simp
next
  case (Cons e es)
  obtain k old where e: "e = (k, old)" by (cases e)
  from Cons.prems(1) obtain p1 where
    p1: "track_step W (k, old) p = Inr p1" "match_loop W es p1 = Inr p'"
    unfolding e by (rule match_loop_Cons)
  from Cons.prems(2) have fresh: "k \<notin> fst ` set (NEXT_FRAME_TRACKED_FACES p)"
    by (auto simp: e)
  have dist1: "distinct (map fst (NEXT_FRAME_TRACKED_FACES p1) @ map fst es)"
    using Cons.prems(2) unfolding e by (intro track_step_distinct [OF p1(1)]) simp
  from Cons.IH [OF p1(2) dist1] track_step_mset [OF p1(1) fresh] show ?case
    by simp
qed

lemma backed_boxes_spawned: "backed_boxes (spawned W n ds) = map boundingBox ds"
  by (induction ds arbitrary: n) (simp_all add: backed_boxes_def spawned_def new_face_def)

lemma backed_boxes_app: "backed_boxes (m @ m') = backed_boxes m @ backed_boxes m'"
  by (simp add: backed_boxes_def)

lemma matching_pass_mset:
  assumes "distinct (map fst (trackedFaceStates s))"
  shows "mset (map boundingBox (unmatchedDetections (matching_pass W dets s)))
           + mset (backed_boxes (NEXT_FRAME_TRACKED_FACES (matching_pass W dets s)))
         = mset (map boundingBox dets)"
  using match_loop_mset [OF matching_pass [of W s dets]] assms
  by (simp add: start_pass_def backed_boxes_def)

lemma frame_mset:
  assumes "wf s" and "detectFaces dets W s = Inr s'"
  shows "mset (backed_boxes (trackedFaceStates s')) = mset (map boundingBox dets)"
  unfolding frame_fields(1) [OF assms] backed_boxes_app backed_boxes_spawned
  using matching_pass_mset [OF wf_distinct [OF assms(1)], of W dets]
  by (simp add: add.commute)

lemma length_backed_boxes: "length (backed_boxes (trackedFaceStates s)) = actualDetectionsCount s"
  by (simp add: backed_boxes_def actualDetectionsCount_def)

subsection \<open>Counters and flags\<close>

text \<open>
  The outer loop adds to a counter one for each track whose flag it sets. The lemma is
  for both counters: \<open>cnt\<close> and \<open>flag\<close> are \<^verbatim>\<open>enterCount\<close> and \<^verbatim>\<open>isEnterCounted\<close>, or
  \<^verbatim>\<open>exitCount\<close> and \<^verbatim>\<open>isExitCounted\<close>.
\<close>

lemma match_loop_count:
  assumes step: "\<And>k old p p1. track_step W (k, old) p = Inr p1 \<Longrightarrow>
            k \<notin> fst ` set (NEXT_FRAME_TRACKED_FACES p) \<Longrightarrow>
            cnt (globals p1) = cnt (globals p)
              + (if newly_set flag (Some old) (map_of (NEXT_FRAME_TRACKED_FACES p1) k)
                 then 1 else 0)"
    and "match_loop W es p = Inr p'"
    and "distinct (map fst (NEXT_FRAME_TRACKED_FACES p) @ map fst es)"
  shows "cnt (globals p') = cnt (globals p)
           + length (filter (\<lambda>(k, old).
                newly_set flag (Some old) (map_of (NEXT_FRAME_TRACKED_FACES p') k)) es)"
  using assms(2,3)
proof (induction es arbitrary: p)
  case Nil
  then show ?case by simp
next
  case (Cons e es)
  obtain k old where e: "e = (k, old)" by (cases e)
  from Cons.prems(1) obtain p1 where
    p1: "track_step W (k, old) p = Inr p1" "match_loop W es p1 = Inr p'"
    unfolding e by (rule match_loop_Cons)
  from Cons.prems(2) have fresh: "k \<notin> fst ` set (NEXT_FRAME_TRACKED_FACES p)"
    and later: "k \<notin> fst ` set es"
    by (auto simp: e)
  have dist1: "distinct (map fst (NEXT_FRAME_TRACKED_FACES p1) @ map fst es)"
    using Cons.prems(2) unfolding e by (intro track_step_distinct [OF p1(1)]) simp
  have same: "map_of (NEXT_FRAME_TRACKED_FACES p') k = map_of (NEXT_FRAME_TRACKED_FACES p1) k"
    by (rule match_loop_other_key [OF p1(2) later])
  from Cons.IH [OF p1(2) dist1] step [OF p1(1) fresh] show ?case
    by (simp add: e same)
qed

lemma track_step_enterCount:
  assumes "track_step W (k, old) p = Inr p1"
    and "k \<notin> fst ` set (NEXT_FRAME_TRACKED_FACES p)"
  shows "enterCount (globals p1) = enterCount (globals p)
           + (if newly_set isEnterCounted (Some old) (map_of (NEXT_FRAME_TRACKED_FACES p1) k)
              then 1 else 0)"
proof -
  have none: "map_of (NEXT_FRAME_TRACKED_FACES p) k = None"
    using assms(2) by (simp add: map_of_eq_None_iff)
  from assms(1) show ?thesis
  proof (cases rule: track_step_cases)
    case (matched j)
    then show ?thesis
      by (auto simp: matched_update_eq map_of_Map_set newly_set_def matched_face_def
            enter_fires_def)
  next
    case unmatched
    then show ?thesis
      using none by (simp add: unmatched_update_eq map_of_Map_set newly_set_def aged_def)
  qed
qed

lemma track_step_exitCount:
  assumes "track_step W (k, old) p = Inr p1"
    and "k \<notin> fst ` set (NEXT_FRAME_TRACKED_FACES p)"
  shows "exitCount (globals p1) = exitCount (globals p)
           + (if newly_set isExitCounted (Some old) (map_of (NEXT_FRAME_TRACKED_FACES p1) k)
              then 1 else 0)"
proof -
  have none: "map_of (NEXT_FRAME_TRACKED_FACES p) k = None"
    using assms(2) by (simp add: map_of_eq_None_iff)
  from assms(1) show ?thesis
  proof (cases rule: track_step_cases)
    case (matched j)
    then show ?thesis
      by (auto simp: matched_update_eq map_of_Map_set newly_set_def matched_face_def
            exit_fires_def)
  next
    case unmatched
    then show ?thesis
      using none by (simp add: unmatched_update_eq map_of_Map_set newly_set_def aged_def)
  qed
qed

lemma frame_flips_eq:
  assumes "wf s" and "detectFaces dets W s = Inr s'"
  shows "frame_flips flag s s'
           = length (filter (\<lambda>(k, old). newly_set flag (Some old)
                 (map_of (NEXT_FRAME_TRACKED_FACES (matching_pass W dets s)) k))
               (trackedFaceStates s))"
proof -
  have "flag_flip flag s s' k
          = newly_set flag (Some old)
              (map_of (NEXT_FRAME_TRACKED_FACES (matching_pass W dets s)) k)"
    if "(k, old) \<in> set (trackedFaceStates s)" for k old
  proof -
    have "lookup_track s k = Some old"
      using that wf_distinct [OF assms(1)] by (simp add: lookup_track_def)
    moreover have "lookup_track s' k
        = map_of (NEXT_FRAME_TRACKED_FACES (matching_pass W dets s)) k"
      using frame_lookup_old [OF assms wf_below [OF assms(1) that]] .
    ultimately show ?thesis by (simp add: flag_flip_def)
  qed
  then show ?thesis
    unfolding frame_flips_def by (intro arg_cong [where f = length] filter_cong) auto
qed

lemma frame_enterCount:
  assumes "wf s" and "detectFaces dets W s = Inr s'"
  shows "enterCount s' = enterCount s + frame_flips isEnterCounted s s'"
proof -
  have "distinct (map fst (NEXT_FRAME_TRACKED_FACES (start_pass dets s))
                  @ map fst (trackedFaceStates s))"
    using wf_distinct [OF assms(1)] by (simp add: start_pass_def)
  from match_loop_count [where cnt = enterCount and flag = isEnterCounted,
      OF track_step_enterCount matching_pass this]
  show ?thesis
    unfolding frame_flips_eq [OF assms] frame_fields(3) [OF assms]
    by (simp add: start_pass_def)
qed

lemma frame_exitCount:
  assumes "wf s" and "detectFaces dets W s = Inr s'"
  shows "exitCount s' = exitCount s + frame_flips isExitCounted s s'"
proof -
  have "distinct (map fst (NEXT_FRAME_TRACKED_FACES (start_pass dets s))
                  @ map fst (trackedFaceStates s))"
    using wf_distinct [OF assms(1)] by (simp add: start_pass_def)
  from match_loop_count [where cnt = exitCount and flag = isExitCounted,
      OF track_step_exitCount matching_pass this]
  show ?thesis
    unfolding frame_flips_eq [OF assms] frame_fields(4) [OF assms]
    by (simp add: start_pass_def)
qed

subsection \<open>Several frames\<close>

lemma run_frames_total: "\<exists>tr. run_frames frames s = Inr tr \<and> length tr = length frames"
proof (induction frames arbitrary: s)
  case Nil
  show ?case by simp
next
  case (Cons f frames)
  obtain dets W where f: "f = (dets, W)" by (cases f)
  obtain s' where s': "detectFaces dets W s = Inr s'"
    using detectFaces_total by blast
  from Cons.IH [of s'] obtain tr where "run_frames frames s' = Inr tr" "length tr = length frames"
    by blast
  with s' show ?case by (simp add: f)
qed

lemma run_frames_Cons:
  assumes "run_frames ((dets, W) # frames) s = Inr tr"
  obtains s' tr' where "detectFaces dets W s = Inr s'" "run_frames frames s' = Inr tr'"
    "tr = s' # tr'"
  using assms by (auto split: sum.splits)

text \<open>
  A flag that is set stays set while the track lives, and an id that has been given out
  is not given to a later track.
\<close>

lemma settled_frame:
  assumes "wf s" and "detectFaces dets W s = Inr s'"
    and mono: "\<And>W old d. flag old \<Longrightarrow> flag (matched_face W old d)"
    and ag: "\<And>old. flag (aged old) = flag old"
    and "settled flag s k"
  shows "settled flag s' k"
proof -
  from assms(5) have below: "k < nextTrackingId s"
    and fl: "\<And>st. lookup_track s k = Some st \<Longrightarrow> flag st"
    by (auto simp: settled_def)
  have "k < nextTrackingId s'"
    using below frame_next_mono [OF assms(1,2)] by simp
  moreover have "flag st'" if "lookup_track s' k = Some st'" for st'
    using assms(1,2) that
  proof (cases rule: frame_track_cases)
    case (matched old d)
    with fl mono show ?thesis by simp
  next
    case (ghost old)
    with fl ag show ?thesis by simp
  next
    case (new d)
    with below show ?thesis by simp
  qed
  ultimately show ?thesis
    by (auto simp: settled_def split: option.split)
qed

lemma settled_no_flip: "settled flag s k \<Longrightarrow> \<not> flag_flip flag s s' k"
  by (auto simp: settled_def flag_flip_def newly_set_def split: option.splits)

lemma flip_settled:
  assumes "wf s'" and "flag_flip flag s s' k"
  shows "settled flag s' k"
proof -
  from assms(2) obtain st' where st': "lookup_track s' k = Some st'" "flag st'"
    by (auto simp: flag_flip_def newly_set_def split: option.splits)
  with wf_lookup(1) [OF assms(1) st'(1)] show ?thesis
    by (simp add: settled_def)
qed

lemma settled_run:
  assumes mono: "\<And>W old d. flag old \<Longrightarrow> flag (matched_face W old d)"
    and ag: "\<And>old. flag (aged old) = flag old"
    and "wf s" and "run_frames frames s = Inr tr" and "settled flag s k"
  shows "flips_of flag k (s # tr) = 0"
  using assms(3-)
proof (induction frames arbitrary: s tr)
  case Nil
  then show ?case by simp
next
  case (Cons f frames)
  obtain dets W where f: "f = (dets, W)" by (cases f)
  from Cons.prems(2) obtain s' tr' where
    s': "detectFaces dets W s = Inr s'" and tr': "run_frames frames s' = Inr tr'"
    and tr: "tr = s' # tr'"
    unfolding f by (rule run_frames_Cons)
  have wf': "wf s'"
    using Cons.prems(1) s' by (rule wf_frame_preserved)
  have "settled flag s' k"
    using Cons.prems(1) s' mono ag Cons.prems(3) by (rule settled_frame)
  from Cons.IH [OF wf' tr' this] settled_no_flip [OF Cons.prems(3)] show ?case
    by (simp add: tr)
qed

lemma flips_at_most_once:
  assumes mono: "\<And>W old d. flag old \<Longrightarrow> flag (matched_face W old d)"
    and ag: "\<And>old. flag (aged old) = flag old"
    and "wf s" and "run_frames frames s = Inr tr"
  shows "flips_of flag k (s # tr) \<le> 1"
  using assms(3-)
proof (induction frames arbitrary: s tr)
  case Nil
  then show ?case by simp
next
  case (Cons f frames)
  obtain dets W where f: "f = (dets, W)" by (cases f)
  from Cons.prems(2) obtain s' tr' where
    s': "detectFaces dets W s = Inr s'" and tr': "run_frames frames s' = Inr tr'"
    and tr: "tr = s' # tr'"
    unfolding f by (rule run_frames_Cons)
  have wf': "wf s'"
    using Cons.prems(1) s' by (rule wf_frame_preserved)
  show ?case
  proof (cases "flag_flip flag s s' k")
    case True
    have "settled flag s' k"
      using wf' True by (rule flip_settled)
    from settled_run [of flag, OF mono ag wf' tr' this] True show ?thesis
      by (simp add: tr)
  next
    case False
    with Cons.IH [OF wf' tr'] show ?thesis
      by (simp add: tr)
  qed
qed

lemma enter_flag_facts:
  "isEnterCounted old \<Longrightarrow> isEnterCounted (matched_face W old d)"
  "isEnterCounted (aged old) = isEnterCounted old"
  by (simp_all add: matched_face_def aged_def)

lemma exit_flag_facts:
  "isExitCounted old \<Longrightarrow> isExitCounted (matched_face W old d)"
  "isExitCounted (aged old) = isExitCounted old"
  by (simp_all add: matched_face_def aged_def)

text \<open>The counters along a run: the sum of the transitions, and never less than before.\<close>

lemma run_counts:
  assumes "wf s" and "run_frames frames s = Inr tr"
  shows "enterCount (last (s # tr)) = enterCount s + total_flips isEnterCounted (s # tr)"
    and "exitCount (last (s # tr)) = exitCount s + total_flips isExitCounted (s # tr)"
    and "sorted (map enterCount (s # tr))"
    and "sorted (map exitCount (s # tr))"
  using assms
proof (induction frames arbitrary: s tr)
  case Nil
  {
    case 1 then show ?case by simp
  next
    case 2 then show ?case by simp
  next
    case 3 then show ?case by simp
  next
    case 4 then show ?case by simp
  }
next
  case (Cons f frames)
  obtain dets W where f: "f = (dets, W)" by (cases f)
  {
    case 1
    from 1(2) obtain s' tr' where
      s': "detectFaces dets W s = Inr s'" and tr': "run_frames frames s' = Inr tr'"
      and tr: "tr = s' # tr'"
      unfolding f by (rule run_frames_Cons)
    have wf': "wf s'" using 1(1) s' by (rule wf_frame_preserved)
    from Cons.IH(1) [OF wf' tr'] frame_enterCount [OF 1(1) s'] show ?case
      by (simp add: tr)
  next
    case 2
    from 2(2) obtain s' tr' where
      s': "detectFaces dets W s = Inr s'" and tr': "run_frames frames s' = Inr tr'"
      and tr: "tr = s' # tr'"
      unfolding f by (rule run_frames_Cons)
    have wf': "wf s'" using 2(1) s' by (rule wf_frame_preserved)
    from Cons.IH(2) [OF wf' tr'] frame_exitCount [OF 2(1) s'] show ?case
      by (simp add: tr)
  next
    case 3
    from 3(2) obtain s' tr' where
      s': "detectFaces dets W s = Inr s'" and tr': "run_frames frames s' = Inr tr'"
      and tr: "tr = s' # tr'"
      unfolding f by (rule run_frames_Cons)
    have wf': "wf s'" using 3(1) s' by (rule wf_frame_preserved)
    have le: "enterCount s \<le> enterCount s'"
      using frame_enterCount [OF 3(1) s'] by simp
    have "sorted (map enterCount (s' # tr'))"
      using Cons.IH(3) [OF wf' tr'] .
    with le show ?case
      unfolding tr by (auto intro: order_trans)
  next
    case 4
    from 4(2) obtain s' tr' where
      s': "detectFaces dets W s = Inr s'" and tr': "run_frames frames s' = Inr tr'"
      and tr: "tr = s' # tr'"
      unfolding f by (rule run_frames_Cons)
    have wf': "wf s'" using 4(1) s' by (rule wf_frame_preserved)
    have le: "exitCount s \<le> exitCount s'"
      using frame_exitCount [OF 4(1) s'] by simp
    have "sorted (map exitCount (s' # tr'))"
      using Cons.IH(4) [OF wf' tr'] .
    with le show ?case
      unfolding tr by (auto intro: order_trans)
  }
qed

subsection \<open>Evaluation of the examples\<close>

lemmas frame_eval =
  detectFaces_def track_step_def best_match_def splice1_def matched_update_def
  matched_state_def count_crossing_def side_of_def getFlippedBoxCenter_def new_track_def
  unmatched_update_def PROXIMITY_THRESHOLD_def CENTER_LINE_X_THRESHOLD_def
  MAX_MISS_FRAMES_def Let_def det_at_def face_at_def

lemma reachable_two_faces: "reachable two_faces"
proof -
  have "detectFaces [det_at 320, det_at 100] 640 initial = Inr two_faces"
    by (simp add: frame_eval initial_def two_faces_def)
  with reachable_initial show ?thesis
    by (rule reachable_frame)
qed


subsection \<open>Tracks that miss frames\<close>

text \<open>A track that is gone does not come back: its id is not given out again.\<close>

lemma gone_run:
  assumes "wf s" and "run_frames frames s = Inr tr"
    and "k < nextTrackingId s" and "lookup_track s k = None"
  shows "lookup_track (last (s # tr)) k = None"
  using assms
proof (induction frames arbitrary: s tr)
  case Nil
  then show ?case by simp
next
  case (Cons f frames)
  obtain dets W where f: "f = (dets, W)" by (cases f)
  from Cons.prems(2) obtain s' tr' where
    s': "detectFaces dets W s = Inr s'" and tr': "run_frames frames s' = Inr tr'"
    and tr: "tr = s' # tr'"
    unfolding f by (rule run_frames_Cons)
  have wf': "wf s'"
    using Cons.prems(1) s' by (rule wf_frame_preserved)
  have "k < nextTrackingId s'"
    using Cons.prems(3) frame_next_mono [OF Cons.prems(1) s'] by simp
  moreover have "lookup_track s' k = None"
    using Cons.prems(1) s' Cons.prems(3,4) by (rule frame_absent_key)
  ultimately have "lookup_track (last (s' # tr')) k = None"
    using Cons.IH [OF wf' tr'] by simp
  then show ?case by (simp add: tr)
qed

text \<open>
  A track that is not matched in any of the frames: the frames add to its
  \<^verbatim>\<open>missedFrames\<close> while the sum is at most \<^verbatim>\<open>MAX_MISS_FRAMES\<close>, then the track is gone.
\<close>

lemma miss_run:
  assumes "wf s" and "run_frames frames s = Inr tr"
    and "lookup_track s k = Some st"
    and "\<forall>s' \<in> set tr. \<forall>st'. lookup_track s' k = Some st' \<longrightarrow> missedFrames st' \<noteq> 0"
  shows "lookup_track (last (s # tr)) k =
           (if missedFrames st + length frames \<le> MAX_MISS_FRAMES
            then Some (st\<lparr>missedFrames := missedFrames st + length frames\<rparr>) else None)"
  using assms
proof (induction frames arbitrary: s tr st)
  case Nil
  then show ?case
    using wf_lookup(3) [OF Nil.prems(1,3)] by simp
next
  case (Cons f frames)
  obtain dets W where f: "f = (dets, W)" by (cases f)
  from Cons.prems(2) obtain s' tr' where
    s': "detectFaces dets W s = Inr s'" and tr': "run_frames frames s' = Inr tr'"
    and tr: "tr = s' # tr'"
    unfolding f by (rule run_frames_Cons)
  have wf': "wf s'"
    using Cons.prems(1) s' by (rule wf_frame_preserved)
  have later: "\<forall>s'' \<in> set tr'. \<forall>st'. lookup_track s'' k = Some st' \<longrightarrow> missedFrames st' \<noteq> 0"
    and here: "\<forall>st'. lookup_track s' k = Some st' \<longrightarrow> missedFrames st' \<noteq> 0"
    using Cons.prems(4) by (simp_all add: tr)
  have "(k, st) \<in> set (trackedFaceStates s)"
    using Cons.prems(3) by (simp add: lookup_track_def map_of_SomeD)
  from frame_old_track [OF Cons.prems(1) s' this] here
  have look': "lookup_track s' k
      = (if missedFrames st + 1 \<le> MAX_MISS_FRAMES then Some (aged st) else None)"
    by (auto simp: matched_face_fields)
  show ?case
  proof (cases "missedFrames st + 1 \<le> MAX_MISS_FRAMES")
    case True
    with look' have "lookup_track s' k = Some (aged st)"
      by simp
    from Cons.IH [OF wf' tr' this later] show ?thesis
      by (simp add: tr aged_def)
  next
    case False
    with look' have none: "lookup_track s' k = None"
      by simp
    have "k < nextTrackingId s'"
      using wf_lookup(1) [OF Cons.prems(1,3)] frame_next_mono [OF Cons.prems(1) s'] by simp
    from gone_run [OF wf' tr' this none] False show ?thesis
      by (simp add: tr)
  qed
qed

subsection \<open>The ids given out\<close>

lemma run_states:
  assumes "wf s" and "run_frames frames s = Inr tr" and "s1 \<in> set (s # tr)"
  shows "wf s1 \<and> nextTrackingId s1 \<le> nextTrackingId (last (s # tr))"
  using assms
proof (induction frames arbitrary: s tr s1)
  case Nil
  then show ?case by simp
next
  case (Cons f frames)
  obtain dets W where f: "f = (dets, W)" by (cases f)
  from Cons.prems(2) obtain s' tr' where
    s': "detectFaces dets W s = Inr s'" and tr': "run_frames frames s' = Inr tr'"
    and tr: "tr = s' # tr'"
    unfolding f by (rule run_frames_Cons)
  have wf': "wf s'"
    using Cons.prems(1) s' by (rule wf_frame_preserved)
  have mono: "nextTrackingId s \<le> nextTrackingId s'"
    using Cons.prems(1) s' by (rule frame_next_mono)
  have "s' \<in> set (s' # tr')"
    by simp
  from Cons.IH [OF wf' tr' this]
  have last': "nextTrackingId s' \<le> nextTrackingId (last (s' # tr'))"
    by simp
  show ?case
  proof (cases "s1 = s")
    case True
    with Cons.prems(1) mono last' show ?thesis
      by (simp add: tr)
  next
    case False
    with Cons.prems(3) have "s1 \<in> set (s' # tr')"
      by (simp add: tr)
    from Cons.IH [OF wf' tr' this] show ?thesis
      by (simp add: tr)
  qed
qed

lemma run_keys_below:
  assumes "wf s" and "run_frames frames s = Inr tr" and "s1 \<in> set (s # tr)"
    and "k \<in> fst ` set (trackedFaceStates s1)"
  shows "k < nextTrackingId (last (s # tr))"
proof -
  from run_states [OF assms(1,2,3)] have "wf s1"
    and le: "nextTrackingId s1 \<le> nextTrackingId (last (s # tr))"
    by simp_all
  from assms(4) obtain st where "(k, st) \<in> set (trackedFaceStates s1)"
    by auto
  from wf_below [OF \<open>wf s1\<close> this] le show ?thesis
    by simp
qed

lemma reachable_run:
  assumes "reachable s" and "run_frames frames s = Inr tr"
  shows "reachable (last (s # tr))"
  using assms
proof (induction frames arbitrary: s tr)
  case Nil
  then show ?case by simp
next
  case (Cons f frames)
  obtain dets W where f: "f = (dets, W)" by (cases f)
  from Cons.prems(2) obtain s' tr' where
    s': "detectFaces dets W s = Inr s'" and tr': "run_frames frames s' = Inr tr'"
    and tr: "tr = s' # tr'"
    unfolding f by (rule run_frames_Cons)
  have "reachable s'"
    using Cons.prems(1) s' by (rule reachable_frame)
  from Cons.IH [OF this tr'] show ?case
    by (simp add: tr)
qed

text \<open>
  The value of \<^verbatim>\<open>nextTrackingId\<close> is not determined by the map and the two
  counters: both example states with one face are reached.
\<close>

lemma reachable_one_face: "reachable one_face"
proof -
  have "detectFaces [det_at 320] 640 initial = Inr one_face"
    by (simp add: initial_def one_face_def frame_eval)
  with reachable_initial show ?thesis
    by (rule reachable_frame)
qed

lemma reachable_one_face_later: "reachable one_face_later"
proof -
  let ?s = "\<lambda>m. \<lparr>enterCount = 0, exitCount = 0,
                 trackedFaceStates = [(0, face_at 0 310 Left 0), (1, face_at 1 530 Right m)],
                 nextTrackingId = 2\<rparr>"
  have "run_frames second_face_passes initial
      = Inr [one_face, ?s 0, ?s 1, ?s 2, ?s 3, ?s 4, ?s 5, one_face_later]"
    by (simp add: second_face_passes_def numeral_eq_Suc initial_def one_face_def
          one_face_later_def frame_eval)
  from reachable_run [OF reachable_initial this] show ?thesis
    by simp
qed


subsection \<open>The first loop does not read nextTrackingId\<close>

lemma track_step_with_next:
  "track_step W e (with_next n p) =
     (case track_step W e p of Inl x \<Rightarrow> Inl x | Inr p1 \<Rightarrow> Inr (with_next n p1))"
proof -
  obtain k old where e: "e = (k, old)" by (cases e)
  have pool: "unmatchedDetections (with_next n p) = unmatchedDetections p"
    by (simp add: with_next_def)
  show ?thesis
  proof (cases "\<exists>d \<in> set (unmatchedDetections p). near W old d")
    case True
    then have "\<exists>d \<in> set (unmatchedDetections (with_next n p)). near W old d"
      by (simp add: pool)
    from track_step_matched [OF this, of k] track_step_matched [OF True, of k] show ?thesis
      unfolding e pool by (simp add: matched_update_eq with_next_def)
  next
    case False
    then have "\<not> (\<exists>d \<in> set (unmatchedDetections (with_next n p)). near W old d)"
      by (simp add: pool)
    from track_step_unmatched [OF this, of k] track_step_unmatched [OF False, of k] show ?thesis
      unfolding e by (simp add: unmatched_update_eq with_next_def)
  qed
qed

lemma match_loop_with_next:
  "match_loop W es (with_next n p) =
     (case match_loop W es p of Inl x \<Rightarrow> Inl x | Inr p1 \<Rightarrow> Inr (with_next n p1))"
proof (induction es arbitrary: p)
  case Nil
  show ?case by simp
next
  case (Cons e es)
  show ?case
    by (cases "track_step W e p") (simp_all add: track_step_with_next Cons.IH)
qed

lemma matching_pass_with_next:
  "matching_pass W dets (s\<lparr>nextTrackingId := n\<rparr>) = with_next n (matching_pass W dets s)"
proof -
  have start: "start_pass dets (s\<lparr>nextTrackingId := n\<rparr>) = with_next n (start_pass dets s)"
    by (simp add: start_pass_def with_next_def)
  have "match_loop W (trackedFaceStates (s\<lparr>nextTrackingId := n\<rparr>))
          (start_pass dets (s\<lparr>nextTrackingId := n\<rparr>))
      = Inr (with_next n (matching_pass W dets s))"
    unfolding start by (simp add: match_loop_with_next matching_pass)
  then show ?thesis
    by (simp add: matching_pass_def)
qed

lemma erase_id_spawned:
  "map (\<lambda>(k, st). st\<lparr>id_st := 0\<rparr>) (spawned W n ds)
     = map (\<lambda>d. (new_face W 0 d)) ds"
  by (induction ds arbitrary: n) (simp_all add: spawned_def new_face_def)

text \<open>
  Two states that differ in \<^verbatim>\<open>nextTrackingId\<close> only: a frame gives them the same counters,
  the same old tracks and the same new tracks but for the ids of the new tracks.
\<close>

lemma frame_with_next:
  assumes "wf s" and "wf (s\<lparr>nextTrackingId := n\<rparr>)"
    and "detectFaces dets W s = Inr r"
    and "detectFaces dets W (s\<lparr>nextTrackingId := n\<rparr>) = Inr r'"
  shows "enterCount r = enterCount r'" and "exitCount r = exitCount r'"
    and "trackedFaceStates r =
           NEXT_FRAME_TRACKED_FACES (matching_pass W dets s)
           @ spawned W (nextTrackingId s) (unmatchedDetections (matching_pass W dets s))"
    and "trackedFaceStates r' =
           NEXT_FRAME_TRACKED_FACES (matching_pass W dets s)
           @ spawned W n (unmatchedDetections (matching_pass W dets s))"
    and "nextTrackingId r = nextTrackingId s + length (unmatchedDetections (matching_pass W dets s))"
    and "nextTrackingId r' = n + length (unmatchedDetections (matching_pass W dets s))"
  using frame_fields [OF assms(1,3)] frame_fields [OF assms(2,4)]
  by (simp_all add: matching_pass_with_next with_next_def)

section \<open>The claims\<close>

subsection \<open>C1: each flag is set at most once, and the counters count these settings\<close>

text \<open>
  Claim C1. From any state the program can reach, any sequence of frames runs to its end,
  and along the states it goes through: for every track id, \<^verbatim>\<open>isEnterCounted\<close> goes from
  false to true at most once and so does \<^verbatim>\<open>isExitCounted\<close>, however the track moves;
  \<^verbatim>\<open>enterCount\<close> grows by exactly the number of such transitions of \<^verbatim>\<open>isEnterCounted\<close> and
  \<^verbatim>\<open>exitCount\<close> by the number of those of \<^verbatim>\<open>isExitCounted\<close> (for a single frame: by the
  number of tracks whose flag the frame sets); and neither counter ever decreases.
\<close>

theorem flags_set_once_and_counted:
  assumes "reachable s"
  shows "\<exists>tr. run_frames frames s = Inr tr \<and> length tr = length frames \<and>
           (\<forall>k. flips_of isEnterCounted k (s # tr) \<le> 1
               \<and> flips_of isExitCounted k (s # tr) \<le> 1) \<and>
           enterCount (last (s # tr)) = enterCount s + total_flips isEnterCounted (s # tr) \<and>
           exitCount (last (s # tr)) = exitCount s + total_flips isExitCounted (s # tr) \<and>
           sorted (map enterCount (s # tr)) \<and> sorted (map exitCount (s # tr))"
proof -
  have wf: "wf s"
    using assms by (rule reachable_wf)
  obtain tr where tr: "run_frames frames s = Inr tr" "length tr = length frames"
    using run_frames_total by blast
  have "flips_of isEnterCounted k (s # tr) \<le> 1" for k
    using enter_flag_facts wf tr(1) by (rule flips_at_most_once)
  moreover have "flips_of isExitCounted k (s # tr) \<le> 1" for k
    using exit_flag_facts wf tr(1) by (rule flips_at_most_once)
  ultimately show ?thesis
    using tr run_counts [OF wf tr(1)] by blast
qed

theorem flags_set_once_and_counted_witness:
  "reachable initial \<and>
   (\<exists>tr. run_frames oscillation initial = Inr tr \<and>
      flips_of isEnterCounted 0 (initial # tr) = 1 \<and>
      flips_of isExitCounted 0 (initial # tr) = 1 \<and>
      enterCount (last (initial # tr)) = 1 \<and>
      exitCount (last (initial # tr)) = 1)"
proof -
  from flags_set_once_and_counted [OF reachable_initial, of oscillation]
  obtain tr where tr: "run_frames oscillation initial = Inr tr"
    and once: "flips_of isEnterCounted 0 (initial # tr) \<le> 1"
      "flips_of isExitCounted 0 (initial # tr) \<le> 1"
    and cnt: "enterCount (last (initial # tr))
                = enterCount initial + total_flips isEnterCounted (initial # tr)"
      "exitCount (last (initial # tr))
                = exitCount initial + total_flips isExitCounted (initial # tr)"
    by blast
  have run: "run_frames oscillation initial =
    Inr [\<lparr>enterCount = 0, exitCount = 0,
           trackedFaceStates = [(0, face_at 0 310 Left 0)], nextTrackingId = 1\<rparr>,
         \<lparr>enterCount = 1, exitCount = 0,
           trackedFaceStates = [(0, (face_at 0 330 Right 0)\<lparr>isEnterCounted := True\<rparr>)],
           nextTrackingId = 1\<rparr>,
         \<lparr>enterCount = 1, exitCount = 1,
           trackedFaceStates =
             [(0, (face_at 0 310 Left 0)\<lparr>isEnterCounted := True, isExitCounted := True\<rparr>)],
           nextTrackingId = 1\<rparr>,
         \<lparr>enterCount = 1, exitCount = 1,
           trackedFaceStates =
             [(0, (face_at 0 330 Right 0)\<lparr>isEnterCounted := True, isExitCounted := True\<rparr>)],
           nextTrackingId = 1\<rparr>,
         \<lparr>enterCount = 1, exitCount = 1,
           trackedFaceStates =
             [(0, (face_at 0 310 Left 0)\<lparr>isEnterCounted := True, isExitCounted := True\<rparr>)],
           nextTrackingId = 1\<rparr>]"
    by (simp add: oscillation_def initial_def frame_eval)
  from tr run have trace: "tr = projr (run_frames oscillation initial)"
    by simp
  have flips: "flips_of isEnterCounted 0 (initial # tr) = 1"
    "flips_of isExitCounted 0 (initial # tr) = 1"
    unfolding trace run
    by (simp_all add: flag_flip_def newly_set_def lookup_track_def initial_def face_at_def)
  have totals: "total_flips isEnterCounted (initial # tr) = 1"
    "total_flips isExitCounted (initial # tr) = 1"
    unfolding trace run
    by (simp_all add: frame_flips_def flag_flip_def newly_set_def lookup_track_def
          initial_def face_at_def)
  from cnt totals have "enterCount (last (initial # tr)) = 1" "exitCount (last (initial # tr)) = 1"
    by (simp_all add: initial_def)
  with tr flips reachable_initial show ?thesis
    by blast
qed

subsection \<open>C2: the update of a matched track\<close>

text \<open>
  Claim C2. Let a track be matched with a detection whose flipped centre is \<open>c\<close>. The new
  side is left if \<open>c\<close> is strictly less than half the canvas width and right otherwise. If
  the stored side was left, the new side is right and \<^verbatim>\<open>isEnterCounted\<close> is false, then
  \<^verbatim>\<open>enterCount\<close> grows by one and \<^verbatim>\<open>isEnterCounted\<close> becomes true; else, if the stored side
  was right, the new side is left and \<^verbatim>\<open>isExitCounted\<close> is false, then \<^verbatim>\<open>exitCount\<close> grows
  by one and \<^verbatim>\<open>isExitCounted\<close> becomes true; else neither counter and neither flag
  changes. The test reads the side stored before the update, and after it the stored
  side is the new side in every case. The second part says that this is what a step of
  the outer loop does with a track that has a detection within the threshold: the
  detection is the one the search returns, it leaves the pool, and the new value of the
  track is stored under its key.
\<close>

theorem matched_track_update:
  "(let c = getFlippedBoxCenter (boundingBox d) W;
        newSide = (if c < W * 0.5 then Left else Right);
        (st', g') = matched_state W old d g
    in lastSide st' = newSide \<and>
       (if lastSide old = Left \<and> newSide = Right \<and> \<not> isEnterCounted old
        then enterCount g' = enterCount g + 1 \<and> isEnterCounted st' \<and>
             exitCount g' = exitCount g \<and> isExitCounted st' = isExitCounted old
        else if lastSide old = Right \<and> newSide = Left \<and> \<not> isExitCounted old
        then exitCount g' = exitCount g + 1 \<and> isExitCounted st' \<and>
             enterCount g' = enterCount g \<and> isEnterCounted st' = isEnterCounted old
        else enterCount g' = enterCount g \<and> exitCount g' = exitCount g \<and>
             isEnterCounted st' = isEnterCounted old \<and>
             isExitCounted st' = isExitCounted old) \<and>
       prevCenterFlippedX st' = c \<and> missedFrames st' = 0 \<and>
       boundingBox_st st' = boundingBox d \<and> id_st st' = id_st old \<and>
       nextTrackingId g' = nextTrackingId g \<and> trackedFaceStates g' = trackedFaceStates g)
   \<and>
   ((\<exists>e \<in> set (unmatchedDetections p). near W old e) \<longrightarrow>
      (let j = best_index W old (unmatchedDetections p);
           (st', g') = matched_state W old (unmatchedDetections p ! j) (globals p)
       in track_step W (k, old) p =
            Inr (p\<lparr>globals := g',
                   unmatchedDetections := remove_nth j (unmatchedDetections p),
                   NEXT_FRAME_TRACKED_FACES :=
                     Map_set (NEXT_FRAME_TRACKED_FACES p) k st'\<rparr>)))"
proof -
  obtain st' g' where ms: "matched_state W old d g = (st', g')"
    by (cases "matched_state W old d g")
  have st': "st' = matched_face W old d"
    using fst_matched_state [of W old d g] ms by simp
  have g': "g' = g\<lparr>enterCount := enterCount g + (if enter_fires W old d then 1 else 0),
                   exitCount := exitCount g + (if exit_fires W old d then 1 else 0)\<rparr>"
    using snd_matched_state [of W old d g] ms by simp
  have first: "?thesis \<longleftrightarrow>
    ((\<exists>e \<in> set (unmatchedDetections p). near W old e) \<longrightarrow>
      (let j = best_index W old (unmatchedDetections p);
           (st', g') = matched_state W old (unmatchedDetections p ! j) (globals p)
       in track_step W (k, old) p =
            Inr (p\<lparr>globals := g',
                   unmatchedDetections := remove_nth j (unmatchedDetections p),
                   NEXT_FRAME_TRACKED_FACES :=
                     Map_set (NEXT_FRAME_TRACKED_FACES p) k st'\<rparr>)))"
    unfolding ms Let_def prod.case st' g'
    by (cases "lastSide old")
       (auto simp: matched_face_def enter_fires_def exit_fires_def new_side_def side_of_def
          CENTER_LINE_X_THRESHOLD_def)
  show ?thesis
    unfolding first
  proof
    assume nr: "\<exists>e \<in> set (unmatchedDetections p). near W old e"
    show "let j = best_index W old (unmatchedDetections p);
           (st', g') = matched_state W old (unmatchedDetections p ! j) (globals p)
       in track_step W (k, old) p =
            Inr (p\<lparr>globals := g',
                   unmatchedDetections := remove_nth j (unmatchedDetections p),
                   NEXT_FRAME_TRACKED_FACES :=
                     Map_set (NEXT_FRAME_TRACKED_FACES p) k st'\<rparr>)"
      unfolding track_step_matched [OF nr] matched_update_def Let_def
      by (simp add: case_prod_beta)
  qed
qed

theorem matched_track_update_witness:
  "(\<exists>e \<in> set [det_at 500, det_at 300]. near 640 (face_at 7 310 Left 2) e) \<and>
   matched_state 640 (face_at 7 310 Left 2) (det_at 300) two_tracks
     = ((face_at 7 330 Right 0)\<lparr>isEnterCounted := True\<rparr>, two_tracks\<lparr>enterCount := 2\<rparr>) \<and>
   track_step 640 (7, face_at 7 310 Left 2)
       \<lparr>globals = two_tracks, unmatchedDetections = [det_at 500, det_at 300],
        NEXT_FRAME_TRACKED_FACES = []\<rparr>
     = Inr \<lparr>globals = two_tracks\<lparr>enterCount := 2\<rparr>,
            unmatchedDetections = [det_at 500],
            NEXT_FRAME_TRACKED_FACES = [(7, (face_at 7 330 Right 0)\<lparr>isEnterCounted := True\<rparr>)]\<rparr>"
proof -
  let ?old = "face_at 7 310 Left 2"
  let ?p = "\<lparr>globals = two_tracks, unmatchedDetections = [det_at 500, det_at 300],
             NEXT_FRAME_TRACKED_FACES = []\<rparr>"
  have nr: "\<exists>e \<in> set (unmatchedDetections ?p). near 640 ?old e"
    by (simp add: near_def dist_to_def face_at_def det_at_def getFlippedBoxCenter_def
          PROXIMITY_THRESHOLD_def)
  have ms: "matched_state 640 ?old (det_at 300) two_tracks
     = ((face_at 7 330 Right 0)\<lparr>isEnterCounted := True\<rparr>, two_tracks\<lparr>enterCount := 2\<rparr>)"
    by (simp add: matched_state_def count_crossing_def side_of_def getFlippedBoxCenter_def
          face_at_def det_at_def two_tracks_def CENTER_LINE_X_THRESHOLD_def Let_def)
  have j: "best_index 640 ?old [det_at 500, det_at 300] = 1"
    by (simp add: best_index_def best_match_def face_at_def det_at_def
          getFlippedBoxCenter_def PROXIMITY_THRESHOLD_def Let_def)
  from matched_track_update [of "det_at 300" 640 ?old two_tracks ?p 7] nr
  have "let j = best_index 640 ?old (unmatchedDetections ?p);
            (st', g') = matched_state 640 ?old (unmatchedDetections ?p ! j) (globals ?p)
        in track_step 640 (7, ?old) ?p =
             Inr (?p\<lparr>globals := g',
                     unmatchedDetections := remove_nth j (unmatchedDetections ?p),
                     NEXT_FRAME_TRACKED_FACES :=
                       Map_set (NEXT_FRAME_TRACKED_FACES ?p) 7 st'\<rparr>)"
    by blast
  then have "track_step 640 (7, ?old) ?p
     = Inr \<lparr>globals = two_tracks\<lparr>enterCount := 2\<rparr>,
            unmatchedDetections = [det_at 500],
            NEXT_FRAME_TRACKED_FACES = [(7, (face_at 7 330 Right 0)\<lparr>isEnterCounted := True\<rparr>)]\<rparr>"
    by (simp add: j ms remove_nth_def Let_def)
  with nr ms show ?thesis by simp
qed

subsection \<open>C3: the matching pass\<close>

text \<open>
  Claim C3. The outer loop goes through the entries of \<^verbatim>\<open>trackedFaceStates\<close> from the first
  to the last, and in every state the program reaches the keys of that map ascend
  strictly: the tracks are processed in ascending id order. A step for a track looks at
  the detections still in the pool. If one of them is at a distance strictly below
  \<^verbatim>\<open>PROXIMITY_THRESHOLD\<close> (that is \<open>100\<close>) from the stored centre of the track, the step takes
  the detection at the index \<open>j\<close> the search returns: its distance is below the threshold
  and is the least of the pool (the first such index), it is removed from the pool,
  which gets shorter by one, and the track is stored with this detection's box and
  \<^verbatim>\<open>missedFrames = 0\<close>. If none is, no match is accepted and the pool stays as it is. Over
  the whole pass no detection is used twice and no track gets two: the boxes of the
  input are, as a multiset, the boxes left in the pool together with the boxes of the
  matched tracks.
\<close>

theorem matching_pass_greedy:
  "(reachable s \<longrightarrow> sorted_wrt (<) (map fst (trackedFaceStates s))) \<and>
   match_loop W (e # es) p =
     (case track_step W e p of Inl err \<Rightarrow> Inl err | Inr p1 \<Rightarrow> match_loop W es p1) \<and>
   ((\<exists>d \<in> set (unmatchedDetections p).
        abs (getFlippedBoxCenter (boundingBox d) W - prevCenterFlippedX old) < 100) \<longrightarrow>
      (let pool = unmatchedDetections p; j = best_index W old pool
       in j < length pool \<and>
          dist_to W old (pool ! j) < 100 \<and>
          (\<forall>d \<in> set pool. dist_to W old (pool ! j) \<le> dist_to W old d) \<and>
          (\<forall>i < j. dist_to W old (pool ! j) < dist_to W old (pool ! i)) \<and>
          (\<exists>p1. track_step W (k, old) p = Inr p1 \<and>
                unmatchedDetections p1 = remove_nth j pool \<and>
                length (unmatchedDetections p1) + 1 = length pool \<and>
                (\<exists>st. map_of (NEXT_FRAME_TRACKED_FACES p1) k = Some st \<and>
                      boundingBox_st st = boundingBox (pool ! j) \<and>
                      missedFrames st = 0)))) \<and>
   (\<not> (\<exists>d \<in> set (unmatchedDetections p).
        abs (getFlippedBoxCenter (boundingBox d) W - prevCenterFlippedX old) < 100) \<longrightarrow>
      track_step W (k, old) p = Inr (unmatched_update k old p) \<and>
      unmatchedDetections (unmatched_update k old p) = unmatchedDetections p) \<and>
   (reachable s \<longrightarrow>
      match_loop W (trackedFaceStates s) (start_pass dets s) = Inr (matching_pass W dets s) \<and>
      mset (map boundingBox dets)
        = mset (map boundingBox (unmatchedDetections (matching_pass W dets s)))
          + mset (backed_boxes (NEXT_FRAME_TRACKED_FACES (matching_pass W dets s))))"
proof -
  let ?pool = "unmatchedDetections p"
  let ?j = "best_index W old ?pool"
  have near_iff: "near W old d \<longleftrightarrow>
      abs (getFlippedBoxCenter (boundingBox d) W - prevCenterFlippedX old) < 100" for d
    by (simp add: near_def dist_to_def PROXIMITY_THRESHOLD_def)
  have order: "reachable s \<longrightarrow> sorted_wrt (<) (map fst (trackedFaceStates s))"
    using reachable_wf [of s] by (auto simp: wf_def)
  have loop: "match_loop W (e # es) p =
     (case track_step W e p of Inl err \<Rightarrow> Inl err | Inr p1 \<Rightarrow> match_loop W es p1)"
    by simp
  have found: "let pool = unmatchedDetections p; j = best_index W old pool
       in j < length pool \<and>
          dist_to W old (pool ! j) < 100 \<and>
          (\<forall>d \<in> set pool. dist_to W old (pool ! j) \<le> dist_to W old d) \<and>
          (\<forall>i < j. dist_to W old (pool ! j) < dist_to W old (pool ! i)) \<and>
          (\<exists>p1. track_step W (k, old) p = Inr p1 \<and>
                unmatchedDetections p1 = remove_nth j pool \<and>
                length (unmatchedDetections p1) + 1 = length pool \<and>
                (\<exists>st. map_of (NEXT_FRAME_TRACKED_FACES p1) k = Some st \<and>
                      boundingBox_st st = boundingBox (pool ! j) \<and>
                      missedFrames st = 0))"
    if "\<exists>d \<in> set ?pool. near W old d"
  proof -
    note b = best_index_props [OF that]
    have len: "length (remove_nth ?j ?pool) + 1 = length ?pool"
      using b(1) by (simp add: remove_nth_def min_def)
    have "dist_to W old (?pool ! ?j) < 100"
      using b(2) by (simp add: near_def PROXIMITY_THRESHOLD_def)
    moreover have "\<exists>p1. track_step W (k, old) p = Inr p1 \<and>
                unmatchedDetections p1 = remove_nth ?j ?pool \<and>
                length (unmatchedDetections p1) + 1 = length ?pool \<and>
                (\<exists>st. map_of (NEXT_FRAME_TRACKED_FACES p1) k = Some st \<and>
                      boundingBox_st st = boundingBox (?pool ! ?j) \<and>
                      missedFrames st = 0)"
      unfolding track_step_matched [OF that]
      using len by (simp add: matched_update_eq map_of_Map_set matched_face_fields)
    ultimately show ?thesis
      using b(1,3,4) by (simp add: Let_def)
  qed
  have none: "track_step W (k, old) p = Inr (unmatched_update k old p) \<and>
      unmatchedDetections (unmatched_update k old p) = unmatchedDetections p"
    if "\<not> (\<exists>d \<in> set ?pool. near W old d)"
    using track_step_unmatched [OF that] by (simp add: unmatched_update_eq)
  have bij: "match_loop W (trackedFaceStates s) (start_pass dets s)
          = Inr (matching_pass W dets s) \<and>
      mset (map boundingBox dets)
        = mset (map boundingBox (unmatchedDetections (matching_pass W dets s)))
          + mset (backed_boxes (NEXT_FRAME_TRACKED_FACES (matching_pass W dets s)))"
    if "reachable s"
    using matching_pass [of W s dets]
      matching_pass_mset [OF wf_distinct [OF reachable_wf [OF that]], of W dets]
    by simp
  from order loop found none bij show ?thesis
    unfolding near_iff by blast
qed

theorem matching_pass_greedy_witness:
  "reachable two_faces \<and>
   sorted_wrt (<) (map fst (trackedFaceStates two_faces)) \<and>
   (\<exists>d \<in> set [det_at 310, det_at 330, det_at 50].
        abs (getFlippedBoxCenter (boundingBox d) 640
             - prevCenterFlippedX (face_at 0 310 Left 0)) < 100) \<and>
   best_index 640 (face_at 0 310 Left 0) [det_at 310, det_at 330, det_at 50] = 0 \<and>
   (\<exists>p1. track_step 640 (0, face_at 0 310 Left 0)
            (start_pass [det_at 310, det_at 330, det_at 50] two_faces) = Inr p1 \<and>
         unmatchedDetections p1 = [det_at 330, det_at 50]) \<and>
   \<not> (\<exists>d \<in> set [det_at 50].
        abs (getFlippedBoxCenter (boundingBox d) 640
             - prevCenterFlippedX (face_at 0 310 Left 0)) < 100) \<and>
   (\<exists>p1. track_step 640 (0, face_at 0 310 Left 0) (start_pass [det_at 50] two_faces) = Inr p1 \<and>
         unmatchedDetections p1 = [det_at 50]) \<and>
   unmatchedDetections (matching_pass 640 [det_at 310, det_at 330, det_at 50] two_faces)
     = [det_at 330] \<and>
   map fst (NEXT_FRAME_TRACKED_FACES
              (matching_pass 640 [det_at 310, det_at 330, det_at 50] two_faces)) = [0, 1]"
proof -
  let ?old = "face_at 0 310 Left 0"
  let ?dets = "[det_at 310, det_at 330, det_at 50]"
  let ?p = "start_pass ?dets two_faces"
  let ?q = "start_pass [det_at 50] two_faces"
  note inst = matching_pass_greedy [of two_faces 640 "(0, ?old)" "[(1, face_at 1 530 Right 0)]"
      ?p ?old 0 ?dets]
  note inst' = matching_pass_greedy [of two_faces 640 "(0, ?old)" "[]" ?q ?old 0 "[det_at 50]"]
  have r: "reachable two_faces"
    by (rule reachable_two_faces)
  have nr: "\<exists>d \<in> set (unmatchedDetections ?p).
        abs (getFlippedBoxCenter (boundingBox d) 640 - prevCenterFlippedX ?old) < 100"
    by (simp add: start_pass_def det_at_def face_at_def getFlippedBoxCenter_def)
  have far: "\<not> (\<exists>d \<in> set (unmatchedDetections ?q).
        abs (getFlippedBoxCenter (boundingBox d) 640 - prevCenterFlippedX ?old) < 100)"
    by (simp add: start_pass_def det_at_def face_at_def getFlippedBoxCenter_def)
  from inst r have srt: "sorted_wrt (<) (map fst (trackedFaceStates two_faces))"
    by blast
  from inst r have loop: "match_loop 640 (trackedFaceStates two_faces) ?p
      = Inr (matching_pass 640 ?dets two_faces)"
    by blast
  have j: "best_index 640 ?old ?dets = 0"
    by (simp add: best_index_def frame_eval)
  from inst nr have "let pool = unmatchedDetections ?p; j = best_index 640 ?old pool
       in \<exists>p1. track_step 640 (0, ?old) ?p = Inr p1 \<and>
                unmatchedDetections p1 = remove_nth j pool"
    unfolding Let_def by blast
  then have taken: "\<exists>p1. track_step 640 (0, ?old) ?p = Inr p1 \<and>
         unmatchedDetections p1 = [det_at 330, det_at 50]"
    by (simp add: start_pass_def j remove_nth_def)
  from inst' far have "track_step 640 (0, ?old) ?q = Inr (unmatched_update 0 ?old ?q) \<and>
      unmatchedDetections (unmatched_update 0 ?old ?q) = unmatchedDetections ?q"
    by blast
  then have left: "\<exists>p1. track_step 640 (0, ?old) ?q = Inr p1 \<and>
         unmatchedDetections p1 = [det_at 50]"
    by (simp add: start_pass_def)
  have run: "match_loop 640 (trackedFaceStates two_faces) ?p
      = Inr \<lparr>globals = two_faces\<lparr>enterCount := 1\<rparr>,
             unmatchedDetections = [det_at 330],
             NEXT_FRAME_TRACKED_FACES =
               [(0, (face_at 0 320 Right 0)\<lparr>isEnterCounted := True\<rparr>),
                (1, face_at 1 580 Right 0)]\<rparr>"
    by (simp add: two_faces_def start_pass_def frame_eval)
  from loop run have mp: "matching_pass 640 ?dets two_faces
      = \<lparr>globals = two_faces\<lparr>enterCount := 1\<rparr>,
             unmatchedDetections = [det_at 330],
             NEXT_FRAME_TRACKED_FACES =
               [(0, (face_at 0 320 Right 0)\<lparr>isEnterCounted := True\<rparr>),
                (1, face_at 1 580 Right 0)]\<rparr>"
    by simp
  from r srt nr far j taken left show ?thesis
    unfolding mp by (simp add: start_pass_def)
qed

subsection \<open>C4: missed frames\<close>

text \<open>
  Claim C4. A step of the outer loop for a track with a detection within the threshold
  stores the track with \<^verbatim>\<open>missedFrames = 0\<close>. A step for a track without one adds exactly
  one to \<^verbatim>\<open>missedFrames\<close>, stores the track if the new value is at most \<open>5\<close> and stores
  nothing if it is more. In a state the program reaches, a track therefore is after a
  frame either matched, with \<^verbatim>\<open>missedFrames = 0\<close>, or kept with one missed frame more, or,
  exactly when that would be more than \<open>5\<close>, gone. In particular, a track with
  \<^verbatim>\<open>missedFrames = 0\<close> that is matched in none of the following \<open>n\<close> frames is present with
  \<^verbatim>\<open>missedFrames = n\<close> when \<open>n\<close> is at most \<open>5\<close> and absent when \<open>n\<close> is \<open>6\<close> or more.
\<close>

theorem missed_frames_tolerance:
  "((\<exists>d \<in> set (unmatchedDetections p). near W old d) \<longrightarrow>
      (\<exists>p1 st'. track_step W (k, old) p = Inr p1 \<and>
          map_of (NEXT_FRAME_TRACKED_FACES p1) k = Some st' \<and> missedFrames st' = 0)) \<and>
   (\<not> (\<exists>d \<in> set (unmatchedDetections p). near W old d) \<longrightarrow>
      (\<exists>p1. track_step W (k, old) p = Inr p1 \<and>
          NEXT_FRAME_TRACKED_FACES p1 =
            (if missedFrames old + 1 \<le> 5
             then Map_set (NEXT_FRAME_TRACKED_FACES p) k
                    (old\<lparr>missedFrames := missedFrames old + 1\<rparr>)
             else NEXT_FRAME_TRACKED_FACES p))) \<and>
   (reachable s \<longrightarrow> lookup_track s k = Some st \<longrightarrow> detectFaces dets W s = Inr s' \<longrightarrow>
      (\<exists>st'. lookup_track s' k = Some st' \<and> missedFrames st' = 0) \<or>
      lookup_track s' k =
        (if missedFrames st + 1 \<le> 5
         then Some (st\<lparr>missedFrames := missedFrames st + 1\<rparr>) else None)) \<and>
   (reachable s \<longrightarrow> lookup_track s k = Some st \<longrightarrow> missedFrames st = 0 \<longrightarrow>
    run_frames frames s = Inr tr \<longrightarrow>
    (\<forall>s' \<in> set tr. \<forall>st'. lookup_track s' k = Some st' \<longrightarrow> missedFrames st' \<noteq> 0) \<longrightarrow>
      lookup_track (last (s # tr)) k =
        (if length frames \<le> 5 then Some (st\<lparr>missedFrames := length frames\<rparr>) else None))"
proof -
  have a: "\<exists>p1 st'. track_step W (k, old) p = Inr p1 \<and>
          map_of (NEXT_FRAME_TRACKED_FACES p1) k = Some st' \<and> missedFrames st' = 0"
    if "\<exists>d \<in> set (unmatchedDetections p). near W old d"
    unfolding track_step_matched [OF that]
    by (simp add: matched_update_eq map_of_Map_set matched_face_fields)
  have b: "\<exists>p1. track_step W (k, old) p = Inr p1 \<and>
          NEXT_FRAME_TRACKED_FACES p1 =
            (if missedFrames old + 1 \<le> 5
             then Map_set (NEXT_FRAME_TRACKED_FACES p) k
                    (old\<lparr>missedFrames := missedFrames old + 1\<rparr>)
             else NEXT_FRAME_TRACKED_FACES p)"
    if "\<not> (\<exists>d \<in> set (unmatchedDetections p). near W old d)"
    unfolding track_step_unmatched [OF that]
    by (simp add: unmatched_update_eq aged_def MAX_MISS_FRAMES_def)
  have c: "(\<exists>st'. lookup_track s' k = Some st' \<and> missedFrames st' = 0) \<or>
      lookup_track s' k =
        (if missedFrames st + 1 \<le> 5
         then Some (st\<lparr>missedFrames := missedFrames st + 1\<rparr>) else None)"
    if "reachable s" "lookup_track s k = Some st" "detectFaces dets W s = Inr s'"
  proof -
    have "(k, st) \<in> set (trackedFaceStates s)"
      using that(2) by (simp add: lookup_track_def map_of_SomeD)
    from frame_old_track [OF reachable_wf [OF that(1)] that(3) this] show ?thesis
      by (auto simp: matched_face_fields aged_def MAX_MISS_FRAMES_def)
  qed
  have d: "lookup_track (last (s # tr)) k =
        (if length frames \<le> 5 then Some (st\<lparr>missedFrames := length frames\<rparr>) else None)"
    if "reachable s" "lookup_track s k = Some st" "missedFrames st = 0"
      "run_frames frames s = Inr tr"
      "\<forall>s' \<in> set tr. \<forall>st'. lookup_track s' k = Some st' \<longrightarrow> missedFrames st' \<noteq> 0"
    using miss_run [OF reachable_wf [OF that(1)] that(4,2,5)] that(3)
    by (simp add: MAX_MISS_FRAMES_def)
  from a b c d show ?thesis by blast
qed

theorem missed_frames_tolerance_witness:
  "reachable two_faces \<and>
   lookup_track two_faces 0 = Some (face_at 0 310 Left 0) \<and>
   missedFrames (face_at 0 310 Left 0) = 0 \<and>
   (\<exists>d \<in> set [det_at 300]. near 640 (face_at 0 310 Left 0) d) \<and>
   (\<exists>p1 st'. track_step 640 (0, face_at 0 310 Left 0) (start_pass [det_at 300] two_faces) = Inr p1
       \<and> map_of (NEXT_FRAME_TRACKED_FACES p1) 0 = Some st' \<and> missedFrames st' = 0) \<and>
   \<not> (\<exists>d \<in> set [det_at 50]. near 640 (face_at 0 310 Left 5) d) \<and>
   (\<exists>p1. track_step 640 (0, face_at 0 310 Left 5) (start_pass [det_at 50] two_faces) = Inr p1
       \<and> NEXT_FRAME_TRACKED_FACES p1 = []) \<and>
   (\<exists>s'. detectFaces [det_at 600] 640 two_faces = Inr s' \<and>
       lookup_track s' 0 = Some (face_at 0 310 Left 1)) \<and>
   (\<exists>tr. run_frames (empty_frames 5) two_faces = Inr tr \<and>
      (\<forall>s' \<in> set tr. \<forall>st'. lookup_track s' 0 = Some st' \<longrightarrow> missedFrames st' \<noteq> 0) \<and>
      lookup_track (last (two_faces # tr)) 0 = Some (face_at 0 310 Left 5)) \<and>
   (\<exists>tr. run_frames (empty_frames 6) two_faces = Inr tr \<and>
      (\<forall>s' \<in> set tr. \<forall>st'. lookup_track s' 0 = Some st' \<longrightarrow> missedFrames st' \<noteq> 0) \<and>
      lookup_track (last (two_faces # tr)) 0 = None)"
proof -
  let ?st = "face_at 0 310 Left 0"
  let ?s = "\<lambda>m. two_faces\<lparr>trackedFaceStates :=
              [(0, face_at 0 310 Left m), (1, face_at 1 530 Right m)]\<rparr>"
  let ?tr5 = "[?s 1, ?s 2, ?s 3, ?s 4, ?s 5]"
  let ?tr6 = "?tr5 @ [two_faces\<lparr>trackedFaceStates := []\<rparr>]"
  let ?p = "start_pass [det_at 300] two_faces"
  let ?q = "start_pass [det_at 50] two_faces"
  let ?s' = "\<lparr>enterCount = 0, exitCount = 0,
            trackedFaceStates =
              [(0, face_at 0 310 Left 1), (1, face_at 1 530 Right 1), (2, face_at 2 30 Left 0)],
            nextTrackingId = 3\<rparr>"
  have r: "reachable two_faces"
    by (rule reachable_two_faces)
  have l: "lookup_track two_faces 0 = Some ?st"
    by (simp add: lookup_track_def two_faces_def)
  have m: "missedFrames ?st = 0"
    by (simp add: face_at_def)
  have nr: "\<exists>d \<in> set (unmatchedDetections ?p). near 640 ?st d"
    by (simp add: start_pass_def near_def dist_to_def det_at_def face_at_def
          getFlippedBoxCenter_def PROXIMITY_THRESHOLD_def)
  have far: "\<not> (\<exists>d \<in> set (unmatchedDetections ?q). near 640 (face_at 0 310 Left 5) d)"
    by (simp add: start_pass_def near_def dist_to_def det_at_def face_at_def
          getFlippedBoxCenter_def PROXIMITY_THRESHOLD_def)
  from missed_frames_tolerance [where p = ?p and W = 640 and old = ?st and k = 0] nr
  have hit: "\<exists>p1 st'. track_step 640 (0, ?st) ?p = Inr p1
       \<and> map_of (NEXT_FRAME_TRACKED_FACES p1) 0 = Some st' \<and> missedFrames st' = 0"
    by blast
  from missed_frames_tolerance [where p = ?q and W = 640 and old = "face_at 0 310 Left 5"
      and k = 0] far
  have "\<exists>p1. track_step 640 (0, face_at 0 310 Left 5) ?q = Inr p1 \<and>
          NEXT_FRAME_TRACKED_FACES p1 =
            (if missedFrames (face_at 0 310 Left 5) + 1 \<le> 5
             then Map_set (NEXT_FRAME_TRACKED_FACES ?q) 0
                    ((face_at 0 310 Left 5)\<lparr>missedFrames := missedFrames (face_at 0 310 Left 5) + 1\<rparr>)
             else NEXT_FRAME_TRACKED_FACES ?q)"
    by blast
  then have drop: "\<exists>p1. track_step 640 (0, face_at 0 310 Left 5) ?q = Inr p1
       \<and> NEXT_FRAME_TRACKED_FACES p1 = []"
    by (simp add: face_at_def start_pass_def)
  have df: "detectFaces [det_at 600] 640 two_faces = Inr ?s'"
    by (simp add: two_faces_def frame_eval)
  from missed_frames_tolerance [where s = two_faces and k = 0 and st = ?st
      and dets = "[det_at 600]" and W = 640 and s' = ?s'] r l df
  have "(\<exists>st'. lookup_track ?s' 0 = Some st' \<and> missedFrames st' = 0) \<or>
      lookup_track ?s' 0 =
        (if missedFrames ?st + 1 \<le> 5
         then Some (?st\<lparr>missedFrames := missedFrames ?st + 1\<rparr>) else None)"
    by blast
  then have "lookup_track ?s' 0 = Some (face_at 0 310 Left 1)"
    by (auto simp: lookup_track_def face_at_def)
  with df have ghost: "\<exists>s'. detectFaces [det_at 600] 640 two_faces = Inr s' \<and>
       lookup_track s' 0 = Some (face_at 0 310 Left 1)"
    by blast
  have run5: "run_frames (empty_frames 5) two_faces = Inr ?tr5"
    by (simp add: empty_frames_def numeral_eq_Suc two_faces_def frame_eval)
  have run6: "run_frames (empty_frames 6) two_faces = Inr ?tr6"
    by (simp add: empty_frames_def numeral_eq_Suc two_faces_def frame_eval)
  have miss5: "\<forall>s' \<in> set ?tr5. \<forall>st'. lookup_track s' 0 = Some st' \<longrightarrow> missedFrames st' \<noteq> 0"
    by (simp add: lookup_track_def face_at_def)
  have miss6: "\<forall>s' \<in> set ?tr6. \<forall>st'. lookup_track s' 0 = Some st' \<longrightarrow> missedFrames st' \<noteq> 0"
    by (simp add: lookup_track_def face_at_def)
  from missed_frames_tolerance [where s = two_faces and k = 0 and st = ?st
      and frames = "empty_frames 5" and tr = ?tr5]
    r l m run5 miss5
  have "lookup_track (last (two_faces # ?tr5)) 0
      = (if length (empty_frames 5) \<le> 5
         then Some (?st\<lparr>missedFrames := length (empty_frames 5)\<rparr>) else None)"
    by blast
  then have five: "lookup_track (last (two_faces # ?tr5)) 0 = Some (face_at 0 310 Left 5)"
    by (simp add: empty_frames_def face_at_def)
  from missed_frames_tolerance [where s = two_faces and k = 0 and st = ?st
      and frames = "empty_frames 6" and tr = ?tr6]
    r l m run6 miss6
  have "lookup_track (last (two_faces # ?tr6)) 0
      = (if length (empty_frames 6) \<le> 5
         then Some (?st\<lparr>missedFrames := length (empty_frames 6)\<rparr>) else None)"
    by blast
  then have six: "lookup_track (last (two_faces # ?tr6)) 0 = None"
    by (simp add: empty_frames_def)
  have nr': "\<exists>d \<in> set [det_at 300]. near 640 ?st d"
    using nr by (simp add: start_pass_def)
  have far': "\<not> (\<exists>d \<in> set [det_at 50]. near 640 (face_at 0 310 Left 5) d)"
    using far by (simp add: start_pass_def)
  from r l m nr' hit far' drop ghost run5 miss5 five run6 miss6 six show ?thesis
    by blast
qed

subsection \<open>C5: new tracks\<close>

text \<open>
  Claim C5. In a state the program reaches, with \<open>n\<close> the value of \<^verbatim>\<open>nextTrackingId\<close> before
  the frame and \<open>rest\<close> the detections that the first loop leaves in the pool: the frame
  returns a state whose map is the map the first loop built, followed by one new track
  for each detection of \<open>rest\<close>, in their order, with the ids \<open>n\<close>, \<open>n + 1\<close>, and so on; the
  new track has the flipped centre of its detection, the side of that centre against the
  line, both flags false, \<^verbatim>\<open>missedFrames = 0\<close> and the detection's box; \<^verbatim>\<open>nextTrackingId\<close>
  grows by the length of \<open>rest\<close>; the second loop leaves both counters as the first loop
  left them, so with no old track the frame leaves them as they were. Every key in the
  map before the frame and in the map the first loop built is below \<open>n\<close>. And along any
  run from the initial state, every key of every state that occurred is below the
  current \<^verbatim>\<open>nextTrackingId\<close>: the ids given out later are greater than all ids given out
  before, so no id is used twice.
\<close>

theorem new_tracks_fresh_ids:
  "(reachable s \<longrightarrow>
      (let mp = matching_pass W dets s;
           rest = unmatchedDetections mp;
           n = nextTrackingId s
       in match_loop W (trackedFaceStates s) (start_pass dets s) = Inr mp \<and>
          (\<forall>k \<in> fst ` set (trackedFaceStates s). k < n) \<and>
          (\<forall>k \<in> fst ` set (NEXT_FRAME_TRACKED_FACES mp). k < n) \<and>
          (\<exists>s'. detectFaces dets W s = Inr s' \<and>
             trackedFaceStates s' =
               NEXT_FRAME_TRACKED_FACES mp @
               map (\<lambda>(i, d).
                      (i, \<lparr>id_st = i,
                           prevCenterFlippedX = getFlippedBoxCenter (boundingBox d) W,
                           lastSide = (if getFlippedBoxCenter (boundingBox d) W < W * 0.5
                                       then Left else Right),
                           isEnterCounted = False,
                           isExitCounted = False,
                           missedFrames = 0,
                           boundingBox_st = boundingBox d\<rparr>))
                   (enumerate n rest) \<and>
             nextTrackingId s' = n + length rest \<and>
             enterCount s' = enterCount (globals mp) \<and>
             exitCount s' = exitCount (globals mp) \<and>
             (trackedFaceStates s = [] \<longrightarrow>
                enterCount s' = enterCount s \<and> exitCount s' = exitCount s)))) \<and>
   (run_frames frames initial = Inr tr \<longrightarrow>
      (\<forall>s1 \<in> set (initial # tr). \<forall>k \<in> fst ` set (trackedFaceStates s1).
         k < nextTrackingId (last (initial # tr))))"
proof -
  let ?mp = "matching_pass W dets s"
  let ?rest = "unmatchedDetections ?mp"
  let ?n = "nextTrackingId s"
  let ?new = "map (\<lambda>(i, d).
                      (i, \<lparr>id_st = i,
                           prevCenterFlippedX = getFlippedBoxCenter (boundingBox d) W,
                           lastSide = (if getFlippedBoxCenter (boundingBox d) W < W * 0.5
                                       then Left else Right),
                           isEnterCounted = False,
                           isExitCounted = False,
                           missedFrames = 0,
                           boundingBox_st = boundingBox d\<rparr>))
                   (enumerate ?n ?rest)"
  have new: "spawned W ?n ?rest = ?new"
    by (simp add: spawned_def new_face_def new_side_def side_of_def CENTER_LINE_X_THRESHOLD_def)
  have frame: "match_loop W (trackedFaceStates s) (start_pass dets s) = Inr ?mp \<and>
          (\<forall>k \<in> fst ` set (trackedFaceStates s). k < ?n) \<and>
          (\<forall>k \<in> fst ` set (NEXT_FRAME_TRACKED_FACES ?mp). k < ?n) \<and>
          (\<exists>s'. detectFaces dets W s = Inr s' \<and>
             trackedFaceStates s' = NEXT_FRAME_TRACKED_FACES ?mp @ ?new \<and>
             nextTrackingId s' = ?n + length ?rest \<and>
             enterCount s' = enterCount (globals ?mp) \<and>
             exitCount s' = exitCount (globals ?mp) \<and>
             (trackedFaceStates s = [] \<longrightarrow>
                enterCount s' = enterCount s \<and> exitCount s' = exitCount s))"
    if "reachable s"
  proof -
    have wf: "wf s"
      using that by (rule reachable_wf)
    obtain s' where s': "detectFaces dets W s = Inr s'"
      using detectFaces_total by blast
    have below: "\<forall>k \<in> fst ` set (trackedFaceStates s). k < ?n"
      using wf_below [OF wf] by auto
    then have below': "\<forall>k \<in> fst ` set (NEXT_FRAME_TRACKED_FACES ?mp). k < ?n"
      using matching_pass_subset_keys [of W dets s] by blast
    have "globals ?mp = s" if "trackedFaceStates s = []"
    proof -
      have "Inr ?mp = (Inr (start_pass dets s) :: error + pass)"
        unfolding matching_pass [of W s dets, symmetric] by (simp add: that)
      then show ?thesis by (simp add: start_pass_def)
    qed
    then have "trackedFaceStates s = [] \<longrightarrow>
                enterCount s' = enterCount s \<and> exitCount s' = exitCount s"
      using frame_fields(3,4) [OF wf s'] by simp
    with s' frame_fields [OF wf s'] below below' matching_pass [of W s dets] show ?thesis
      unfolding new by blast
  qed
  have hist: "\<forall>s1 \<in> set (initial # tr). \<forall>k \<in> fst ` set (trackedFaceStates s1).
         k < nextTrackingId (last (initial # tr))"
    if "run_frames frames initial = Inr tr"
    using run_keys_below [OF wf_initial that] by blast
  from frame hist show ?thesis
    unfolding Let_def by blast
qed

theorem new_tracks_fresh_ids_witness:
  "reachable two_faces \<and>
   unmatchedDetections (matching_pass 640 [det_at 310, det_at 330, det_at 50] two_faces)
     = [det_at 330] \<and>
   detectFaces [det_at 310, det_at 330, det_at 50] 640 two_faces
     = Inr \<lparr>enterCount = 1, exitCount = 0,
            trackedFaceStates =
              [(0, (face_at 0 320 Right 0)\<lparr>isEnterCounted := True\<rparr>),
               (1, face_at 1 580 Right 0),
               (2, face_at 2 300 Left 0)],
            nextTrackingId = 3\<rparr> \<and>
   (\<exists>tr. run_frames oscillation initial = Inr tr \<and>
      (\<forall>s1 \<in> set (initial # tr). \<forall>k \<in> fst ` set (trackedFaceStates s1).
         k < nextTrackingId (last (initial # tr))))"
proof -
  let ?dets = "[det_at 310, det_at 330, det_at 50]"
  let ?mp = "\<lparr>globals = two_faces\<lparr>enterCount := 1\<rparr>,
             unmatchedDetections = [det_at 330],
             NEXT_FRAME_TRACKED_FACES =
               [(0, (face_at 0 320 Right 0)\<lparr>isEnterCounted := True\<rparr>),
                (1, face_at 1 580 Right 0)]\<rparr>"
  have r: "reachable two_faces"
    by (rule reachable_two_faces)
  have run: "match_loop 640 (trackedFaceStates two_faces) (start_pass ?dets two_faces) = Inr ?mp"
    by (simp add: two_faces_def start_pass_def frame_eval)
  from new_tracks_fresh_ids [of two_faces 640 ?dets] r
  have loop: "match_loop 640 (trackedFaceStates two_faces) (start_pass ?dets two_faces)
      = Inr (matching_pass 640 ?dets two_faces)"
    unfolding Let_def by blast
  with run have mp: "matching_pass 640 ?dets two_faces = ?mp"
    by simp
  from new_tracks_fresh_ids [of two_faces 640 ?dets] r
  have "\<exists>s'. detectFaces ?dets 640 two_faces = Inr s' \<and>
          trackedFaceStates s' =
               NEXT_FRAME_TRACKED_FACES (matching_pass 640 ?dets two_faces) @
               map (\<lambda>(i, d).
                      (i, \<lparr>id_st = i,
                           prevCenterFlippedX = getFlippedBoxCenter (boundingBox d) 640,
                           lastSide = (if getFlippedBoxCenter (boundingBox d) 640 < 640 * 0.5
                                       then Left else Right),
                           isEnterCounted = False,
                           isExitCounted = False,
                           missedFrames = 0,
                           boundingBox_st = boundingBox d\<rparr>))
                   (enumerate (nextTrackingId two_faces)
                      (unmatchedDetections (matching_pass 640 ?dets two_faces))) \<and>
          nextTrackingId s' = nextTrackingId two_faces
             + length (unmatchedDetections (matching_pass 640 ?dets two_faces)) \<and>
          enterCount s' = enterCount (globals (matching_pass 640 ?dets two_faces)) \<and>
          exitCount s' = exitCount (globals (matching_pass 640 ?dets two_faces))"
    unfolding Let_def by blast
  then obtain s' where s': "detectFaces ?dets 640 two_faces = Inr s'"
    and fields: "trackedFaceStates s' =
              [(0, (face_at 0 320 Right 0)\<lparr>isEnterCounted := True\<rparr>),
               (1, face_at 1 580 Right 0),
               (2, face_at 2 300 Left 0)]"
      "nextTrackingId s' = 3" "enterCount s' = 1" "exitCount s' = 0"
    unfolding mp
    by (auto simp: two_faces_def det_at_def face_at_def getFlippedBoxCenter_def)
  from fields have "s' = \<lparr>enterCount = 1, exitCount = 0,
            trackedFaceStates =
              [(0, (face_at 0 320 Right 0)\<lparr>isEnterCounted := True\<rparr>),
               (1, face_at 1 580 Right 0),
               (2, face_at 2 300 Left 0)],
            nextTrackingId = 3\<rparr>"
    by (cases s') simp
  with s' have df: "detectFaces ?dets 640 two_faces
     = Inr \<lparr>enterCount = 1, exitCount = 0,
            trackedFaceStates =
              [(0, (face_at 0 320 Right 0)\<lparr>isEnterCounted := True\<rparr>),
               (1, face_at 1 580 Right 0),
               (2, face_at 2 300 Left 0)],
            nextTrackingId = 3\<rparr>"
    by simp
  obtain tr where tr: "run_frames oscillation initial = Inr tr"
    using run_frames_total by blast
  with new_tracks_fresh_ids [of _ _ _ oscillation tr]
  have "\<forall>s1 \<in> set (initial # tr). \<forall>k \<in> fst ` set (trackedFaceStates s1).
         k < nextTrackingId (last (initial # tr))"
    by blast
  with tr r df show ?thesis
    unfolding mp by auto
qed

subsection \<open>C6: a ghosted track keeps its fields\<close>

text \<open>
  Claim C6. A step of the outer loop for a track without a detection within the threshold
  changes neither the globals, so neither counter, nor the pool; if the track is kept
  (its \<^verbatim>\<open>missedFrames\<close> plus one is at most \<open>5\<close>) it is stored as it was but for
  \<^verbatim>\<open>missedFrames\<close>, which is one more. In a state the program reaches, a track that is
  present after a frame without being matched in it (its \<^verbatim>\<open>missedFrames\<close> is not \<open>0\<close>) has
  the \<^verbatim>\<open>id\<close>, \<^verbatim>\<open>prevCenterFlippedX\<close>, \<^verbatim>\<open>lastSide\<close>, \<^verbatim>\<open>isEnterCounted\<close>, \<^verbatim>\<open>isExitCounted\<close> and
  \<^verbatim>\<open>boundingBox\<close> it had before, and \<^verbatim>\<open>missedFrames\<close> one more; and a frame in which no
  old track is matched leaves both counters as they were.
\<close>

theorem ghost_track_unchanged:
  "(\<not> (\<exists>d \<in> set (unmatchedDetections p). near W old d) \<longrightarrow>
      (\<exists>p1. track_step W (k, old) p = Inr p1 \<and>
          globals p1 = globals p \<and>
          unmatchedDetections p1 = unmatchedDetections p \<and>
          (missedFrames old + 1 \<le> 5 \<longrightarrow>
             NEXT_FRAME_TRACKED_FACES p1 =
               Map_set (NEXT_FRAME_TRACKED_FACES p) k
                 (old\<lparr>missedFrames := missedFrames old + 1\<rparr>)))) \<and>
   (reachable s \<longrightarrow> detectFaces dets W s = Inr s' \<longrightarrow>
      (lookup_track s k = Some old \<longrightarrow> lookup_track s' k = Some st' \<longrightarrow>
       missedFrames st' \<noteq> 0 \<longrightarrow>
         st' = old\<lparr>missedFrames := missedFrames old + 1\<rparr> \<and>
         id_st st' = id_st old \<and>
         prevCenterFlippedX st' = prevCenterFlippedX old \<and>
         lastSide st' = lastSide old \<and>
         isEnterCounted st' = isEnterCounted old \<and>
         isExitCounted st' = isExitCounted old \<and>
         boundingBox_st st' = boundingBox_st old \<and>
         missedFrames st' = missedFrames old + 1) \<and>
      ((\<forall>(k, old) \<in> set (trackedFaceStates s).
           \<forall>st'. lookup_track s' k = Some st' \<longrightarrow> missedFrames st' \<noteq> 0) \<longrightarrow>
         enterCount s' = enterCount s \<and> exitCount s' = exitCount s))"
proof -
  have step: "\<exists>p1. track_step W (k, old) p = Inr p1 \<and>
          globals p1 = globals p \<and>
          unmatchedDetections p1 = unmatchedDetections p \<and>
          (missedFrames old + 1 \<le> 5 \<longrightarrow>
             NEXT_FRAME_TRACKED_FACES p1 =
               Map_set (NEXT_FRAME_TRACKED_FACES p) k
                 (old\<lparr>missedFrames := missedFrames old + 1\<rparr>))"
    if "\<not> (\<exists>d \<in> set (unmatchedDetections p). near W old d)"
    unfolding track_step_unmatched [OF that]
    by (simp add: unmatched_update_eq aged_def MAX_MISS_FRAMES_def)
  have ghost: "st' = old\<lparr>missedFrames := missedFrames old + 1\<rparr> \<and>
         id_st st' = id_st old \<and>
         prevCenterFlippedX st' = prevCenterFlippedX old \<and>
         lastSide st' = lastSide old \<and>
         isEnterCounted st' = isEnterCounted old \<and>
         isExitCounted st' = isExitCounted old \<and>
         boundingBox_st st' = boundingBox_st old \<and>
         missedFrames st' = missedFrames old + 1"
    if "reachable s" "detectFaces dets W s = Inr s'" "lookup_track s k = Some old"
      "lookup_track s' k = Some st'" "missedFrames st' \<noteq> 0"
  proof -
    have "(k, old) \<in> set (trackedFaceStates s)"
      using that(3) by (simp add: lookup_track_def map_of_SomeD)
    from frame_old_track [OF reachable_wf [OF that(1)] that(2) this] that(4,5)
    have "st' = aged old"
      by (auto simp: matched_face_fields split: if_splits)
    then show ?thesis
      by (simp add: aged_def)
  qed
  have quiet: "enterCount s' = enterCount s \<and> exitCount s' = exitCount s"
    if "reachable s" "detectFaces dets W s = Inr s'"
      "\<forall>(k, old) \<in> set (trackedFaceStates s).
           \<forall>st'. lookup_track s' k = Some st' \<longrightarrow> missedFrames st' \<noteq> 0"
  proof -
    have wf: "wf s"
      using that(1) by (rule reachable_wf)
    have noflip: "\<not> flag_flip flag s s' k" if
      "(k, old) \<in> set (trackedFaceStates s)" "\<And>st. flag (aged st) = flag st" for flag k old
    proof -
      have l: "lookup_track s k = Some old"
        using that(1) wf_distinct [OF wf] by (simp add: lookup_track_def)
      from frame_old_track [OF wf \<open>detectFaces dets W s = Inr s'\<close> that(1)]
        \<open>\<forall>(k, old) \<in> set (trackedFaceStates s).
           \<forall>st'. lookup_track s' k = Some st' \<longrightarrow> missedFrames st' \<noteq> 0\<close> that(1)
      have "lookup_track s' k
          = (if missedFrames old + 1 \<le> MAX_MISS_FRAMES then Some (aged old) else None)"
        by (auto simp: matched_face_fields)
      with l that(2) show ?thesis
        by (simp add: flag_flip_def newly_set_def)
    qed
    have "frame_flips isEnterCounted s s' = 0"
      unfolding frame_flips_def using noflip [of _ _ isEnterCounted]
      by (auto simp: aged_def filter_empty_conv)
    moreover have "frame_flips isExitCounted s s' = 0"
      unfolding frame_flips_def using noflip [of _ _ isExitCounted]
      by (auto simp: aged_def filter_empty_conv)
    ultimately show ?thesis
      using frame_enterCount [OF wf that(2)] frame_exitCount [OF wf that(2)] by simp
  qed
  from step ghost quiet show ?thesis
    by blast
qed

theorem ghost_track_unchanged_witness:
  "reachable two_faces \<and>
   \<not> (\<exists>d \<in> set [det_at 50]. near 640 (face_at 0 310 Left 0) d) \<and>
   track_step 640 (0, face_at 0 310 Left 0) (start_pass [det_at 50] two_faces)
     = Inr ((start_pass [det_at 50] two_faces)
              \<lparr>NEXT_FRAME_TRACKED_FACES := [(0, face_at 0 310 Left 1)]\<rparr>) \<and>
   detectFaces [det_at 600] 640 two_faces
     = Inr \<lparr>enterCount = 0, exitCount = 0,
            trackedFaceStates =
              [(0, face_at 0 310 Left 1), (1, face_at 1 530 Right 1), (2, face_at 2 30 Left 0)],
            nextTrackingId = 3\<rparr> \<and>
   lookup_track two_faces 0 = Some (face_at 0 310 Left 0)"
proof -
  let ?old = "face_at 0 310 Left 0"
  let ?p = "start_pass [det_at 50] two_faces"
  let ?s' = "\<lparr>enterCount = 0, exitCount = 0,
            trackedFaceStates =
              [(0, face_at 0 310 Left 1), (1, face_at 1 530 Right 1), (2, face_at 2 30 Left 0)],
            nextTrackingId = 3\<rparr>"
  note inst = ghost_track_unchanged [of ?p 640 ?old 0 two_faces "[det_at 600]" ?s'
      "face_at 0 310 Left 1"]
  have r: "reachable two_faces"
    by (rule reachable_two_faces)
  have far: "\<not> (\<exists>d \<in> set (unmatchedDetections ?p). near 640 ?old d)"
    by (simp add: start_pass_def near_def dist_to_def det_at_def face_at_def
          getFlippedBoxCenter_def PROXIMITY_THRESHOLD_def)
  have df: "detectFaces [det_at 600] 640 two_faces = Inr ?s'"
    by (simp add: two_faces_def frame_eval)
  have l: "lookup_track two_faces 0 = Some ?old"
    by (simp add: lookup_track_def two_faces_def)
  have l': "lookup_track ?s' 0 = Some (face_at 0 310 Left 1)"
    by (simp add: lookup_track_def)
  have m: "missedFrames (face_at 0 310 Left 1) \<noteq> 0"
    by (simp add: face_at_def)
  have none: "\<forall>(k, old) \<in> set (trackedFaceStates two_faces).
           \<forall>st'. lookup_track ?s' k = Some st' \<longrightarrow> missedFrames st' \<noteq> 0"
    by (simp add: two_faces_def lookup_track_def face_at_def)
  from inst far obtain p1 where p1: "track_step 640 (0, ?old) ?p = Inr p1"
    "globals p1 = globals ?p" "unmatchedDetections p1 = unmatchedDetections ?p"
    "missedFrames ?old + 1 \<le> 5 \<longrightarrow>
       NEXT_FRAME_TRACKED_FACES p1 =
         Map_set (NEXT_FRAME_TRACKED_FACES ?p) 0 (?old\<lparr>missedFrames := missedFrames ?old + 1\<rparr>)"
    by blast
  then have "p1 = ?p\<lparr>NEXT_FRAME_TRACKED_FACES := [(0, face_at 0 310 Left 1)]\<rparr>"
    by (cases p1) (simp add: start_pass_def face_at_def)
  with p1(1) have step: "track_step 640 (0, ?old) ?p
      = Inr (?p\<lparr>NEXT_FRAME_TRACKED_FACES := [(0, face_at 0 310 Left 1)]\<rparr>)"
    by simp
  from inst r df l l' m
  have "face_at 0 310 Left 1 = ?old\<lparr>missedFrames := missedFrames ?old + 1\<rparr>"
    by blast
  from inst r df none have "enterCount ?s' = enterCount two_faces"
    by blast
  from r far step df l show ?thesis
    by (simp add: start_pass_def)
qed

subsection \<open>C7: the flipped centre\<close>

text \<open>
  Claim C7. For every box and canvas width \<^verbatim>\<open>getFlippedBoxCenter\<close> returns
  \<open>(canvasWidth - originX - width) + width / 2\<close>. It depends on its two arguments only:
  equal boxes and equal widths give equal centres. And it is this function that measures
  the distance of a detection to a track in the search (a match is found exactly if some
  detection of the pool has its flipped centre at a distance below the threshold from
  the stored centre), that gives a matched track its new centre, and that gives a new
  track its centre.
\<close>

theorem flipped_center_formula:
  "getFlippedBoxCenter b W = (W - originX b - width b) + width b / 2 \<and>
   (b = b' \<and> W = W' \<longrightarrow> getFlippedBoxCenter b W = getFlippedBoxCenter b' W') \<and>
   (fst (best_match W old pool) \<longleftrightarrow>
      (\<exists>d \<in> set pool.
         abs (getFlippedBoxCenter (boundingBox d) W - prevCenterFlippedX old)
           < PROXIMITY_THRESHOLD)) \<and>
   prevCenterFlippedX (fst (matched_state W old d g)) = getFlippedBoxCenter (boundingBox d) W \<and>
   (\<exists>st. map_of (NEXT_FRAME_TRACKED_FACES (new_track W d p)) (nextTrackingId (globals p))
           = Some st \<and>
         prevCenterFlippedX st = getFlippedBoxCenter (boundingBox d) W)"
proof -
  have "getFlippedBoxCenter b W = (W - originX b - width b) + width b / 2"
    by (simp add: getFlippedBoxCenter_def)
  moreover have "fst (best_match W old pool) \<longleftrightarrow>
      (\<exists>d \<in> set pool.
         abs (getFlippedBoxCenter (boundingBox d) W - prevCenterFlippedX old)
           < PROXIMITY_THRESHOLD)"
    unfolding best_match_found by (simp add: near_def dist_to_def)
  moreover have "prevCenterFlippedX (fst (matched_state W old d g))
      = getFlippedBoxCenter (boundingBox d) W"
    by (simp add: fst_matched_state matched_face_fields)
  moreover have "\<exists>st. map_of (NEXT_FRAME_TRACKED_FACES (new_track W d p))
             (nextTrackingId (globals p)) = Some st \<and>
         prevCenterFlippedX st = getFlippedBoxCenter (boundingBox d) W"
    by (simp add: new_track_eq map_of_Map_set new_face_fields)
  ultimately show ?thesis by blast
qed

theorem flipped_center_formula_witness:
  "getFlippedBoxCenter (boundingBox (det_at 300)) 640 = 330 \<and>
   (boundingBox (det_at 300) = boundingBox (det_at (200 + 100)) \<and> (640::real) = 320 * 2) \<and>
   getFlippedBoxCenter (boundingBox (det_at 300)) 640
     = getFlippedBoxCenter (boundingBox (det_at (200 + 100))) (320 * 2) \<and>
   fst (best_match 640 (face_at 0 310 Left 0) [det_at 50, det_at 300]) \<and>
   prevCenterFlippedX (fst (matched_state 640 (face_at 0 310 Left 0) (det_at 300) initial)) = 330"
proof -
  note inst = flipped_center_formula [of "boundingBox (det_at 300)" 640
      "boundingBox (det_at (200 + 100))" "320 * 2" "face_at 0 310 Left 0"
      "[det_at 50, det_at 300]" "det_at 300" initial]
  have same: "boundingBox (det_at 300) = boundingBox (det_at (200 + 100)) \<and> (640::real) = 320 * 2"
    by simp
  from inst have c: "getFlippedBoxCenter (boundingBox (det_at 300)) 640 = 330"
    by (simp add: det_at_def)
  from inst same have eq: "getFlippedBoxCenter (boundingBox (det_at 300)) 640
     = getFlippedBoxCenter (boundingBox (det_at (200 + 100))) (320 * 2)"
    by blast
  have "\<exists>d \<in> set [det_at 50, det_at 300].
         abs (getFlippedBoxCenter (boundingBox d) 640
              - prevCenterFlippedX (face_at 0 310 Left 0)) < PROXIMITY_THRESHOLD"
    by (simp add: det_at_def face_at_def getFlippedBoxCenter_def PROXIMITY_THRESHOLD_def)
  with inst have found: "fst (best_match 640 (face_at 0 310 Left 0) [det_at 50, det_at 300])"
    by blast
  from inst c
  have "prevCenterFlippedX (fst (matched_state 640 (face_at 0 310 Left 0) (det_at 300) initial))
      = 330"
    by simp
  with c same eq found show ?thesis
    by blast
qed

subsection \<open>C8: the update is deterministic\<close>

text \<open>
  Claim C8, as it is written, lets two runs agree on the detection list, the canvas
  width, the prior map of tracks and the values of \<^verbatim>\<open>enterCount\<close> and \<^verbatim>\<open>exitCount\<close>, and
  concludes that the resulting map has the same ids. It does not: the ids of the tracks
  made in the frame come from \<^verbatim>\<open>nextTrackingId\<close>, which the map and the two counters do not
  determine. The two example states with one face are both reached and have the same
  map and the same counters; the same two detections on the same canvas give the second
  face the id \<open>1\<close> in the one and the id \<open>2\<close> in the other.
\<close>

theorem update_deterministic_counterexample:
  "reachable one_face \<and> reachable one_face_later \<and>
   trackedFaceStates one_face = trackedFaceStates one_face_later \<and>
   enterCount one_face = enterCount one_face_later \<and>
   exitCount one_face = exitCount one_face_later \<and>
   detectFaces [det_at 300, det_at 100] 640 one_face
     = Inr \<lparr>enterCount = 1, exitCount = 0,
            trackedFaceStates =
              [(0, (face_at 0 330 Right 0)\<lparr>isEnterCounted := True\<rparr>),
               (1, face_at 1 530 Right 0)],
            nextTrackingId = 2\<rparr> \<and>
   detectFaces [det_at 300, det_at 100] 640 one_face_later
     = Inr \<lparr>enterCount = 1, exitCount = 0,
            trackedFaceStates =
              [(0, (face_at 0 330 Right 0)\<lparr>isEnterCounted := True\<rparr>),
               (2, face_at 2 530 Right 0)],
            nextTrackingId = 3\<rparr> \<and>
   detectFaces [det_at 300, det_at 100] 640 one_face
     \<noteq> detectFaces [det_at 300, det_at 100] 640 one_face_later"
proof -
  have a: "detectFaces [det_at 300, det_at 100] 640 one_face
     = Inr \<lparr>enterCount = 1, exitCount = 0,
            trackedFaceStates =
              [(0, (face_at 0 330 Right 0)\<lparr>isEnterCounted := True\<rparr>),
               (1, face_at 1 530 Right 0)],
            nextTrackingId = 2\<rparr>"
    by (simp add: one_face_def frame_eval)
  have b: "detectFaces [det_at 300, det_at 100] 640 one_face_later
     = Inr \<lparr>enterCount = 1, exitCount = 0,
            trackedFaceStates =
              [(0, (face_at 0 330 Right 0)\<lparr>isEnterCounted := True\<rparr>),
               (2, face_at 2 530 Right 0)],
            nextTrackingId = 3\<rparr>"
    by (simp add: one_face_later_def one_face_def frame_eval)
  have c: "detectFaces [det_at 300, det_at 100] 640 one_face
     \<noteq> detectFaces [det_at 300, det_at 100] 640 one_face_later"
    unfolding a b by simp
  have d: "trackedFaceStates one_face = trackedFaceStates one_face_later"
    "enterCount one_face = enterCount one_face_later"
    "exitCount one_face = exitCount one_face_later"
    by (simp_all add: one_face_later_def)
  from reachable_one_face reachable_one_face_later a b c d show ?thesis
    by blast
qed

text \<open>
  Claim C8, amended. For two states the program reaches, the same detections in the same
  order, the same canvas width, the same prior map of tracks and the same values of
  \<^verbatim>\<open>enterCount\<close> and \<^verbatim>\<open>exitCount\<close>: both frames return a state; the two results have the same
  \<^verbatim>\<open>enterCount\<close> and \<^verbatim>\<open>exitCount\<close>; their maps are the same list of old tracks (keys, all
  fields and order) followed by new tracks for the same detections in the same order,
  numbered from the \<^verbatim>\<open>nextTrackingId\<close> of each state, so the two maps are equal in length,
  in order and in every field but the ids of the new tracks; and \<^verbatim>\<open>nextTrackingId\<close> grows
  by the same number. If the two states also have the same \<^verbatim>\<open>nextTrackingId\<close>, the two
  results are the same state: the same map with the same ids, and the same counters.
\<close>

theorem update_deterministic_up_to_new_ids:
  "reachable s \<and> reachable t \<and> dets = dets' \<and> W = W' \<and>
   trackedFaceStates s = trackedFaceStates t \<and>
   enterCount s = enterCount t \<and> exitCount s = exitCount t
   \<longrightarrow>
   (\<exists>r r' olds rest.
      detectFaces dets W s = Inr r \<and> detectFaces dets' W' t = Inr r' \<and>
      enterCount r = enterCount r' \<and> exitCount r = exitCount r' \<and>
      trackedFaceStates r =
        olds @ map (\<lambda>(i, d). (i, new_face W i d)) (enumerate (nextTrackingId s) rest) \<and>
      trackedFaceStates r' =
        olds @ map (\<lambda>(i, d). (i, new_face W i d)) (enumerate (nextTrackingId t) rest) \<and>
      (\<forall>k \<in> fst ` set olds. k < nextTrackingId s \<and> k < nextTrackingId t) \<and>
      nextTrackingId r = nextTrackingId s + length rest \<and>
      nextTrackingId r' = nextTrackingId t + length rest \<and>
      map (\<lambda>(k, st). st\<lparr>id_st := 0\<rparr>) (trackedFaceStates r)
        = map (\<lambda>(k, st). st\<lparr>id_st := 0\<rparr>) (trackedFaceStates r') \<and>
      (nextTrackingId s = nextTrackingId t \<longrightarrow> r = r'))"
proof
  assume a: "reachable s \<and> reachable t \<and> dets = dets' \<and> W = W' \<and>
   trackedFaceStates s = trackedFaceStates t \<and>
   enterCount s = enterCount t \<and> exitCount s = exitCount t"
  let ?n = "nextTrackingId t"
  let ?mp = "matching_pass W dets s"
  let ?olds = "NEXT_FRAME_TRACKED_FACES ?mp"
  let ?rest = "unmatchedDetections ?mp"
  from a have t: "t = s\<lparr>nextTrackingId := ?n\<rparr>"
    by (cases s; cases t) simp
  have wfs: "wf s" and wft: "wf t"
    using a reachable_wf by blast+
  from wft have wft': "wf (s\<lparr>nextTrackingId := ?n\<rparr>)"
    using t by simp
  obtain r where r: "detectFaces dets W s = Inr r"
    using detectFaces_total by blast
  obtain r' where r': "detectFaces dets W (s\<lparr>nextTrackingId := ?n\<rparr>) = Inr r'"
    using detectFaces_total by blast
  note f = frame_with_next [OF wfs wft' r r']
  have below: "\<forall>k \<in> fst ` set ?olds. k < nextTrackingId s \<and> k < nextTrackingId t"
  proof
    fix k assume "k \<in> fst ` set ?olds"
    with matching_pass_subset_keys [of W dets s]
    obtain st where k: "(k, st) \<in> set (trackedFaceStates s)"
      by auto
    moreover from k a have "(k, st) \<in> set (trackedFaceStates t)"
      by simp
    ultimately show "k < nextTrackingId s \<and> k < nextTrackingId t"
      using wf_below [OF wfs] wf_below [OF wft] by blast
  qed
  have erased: "map (\<lambda>(k, st). st\<lparr>id_st := 0\<rparr>) (trackedFaceStates r)
        = map (\<lambda>(k, st). st\<lparr>id_st := 0\<rparr>) (trackedFaceStates r')"
    unfolding f(3) f(4) by (simp add: erase_id_spawned)
  have same: "r = r'" if "nextTrackingId s = nextTrackingId t"
  proof -
    have "s\<lparr>nextTrackingId := ?n\<rparr> = s"
      unfolding that [symmetric] by simp
    with r r' show ?thesis by simp
  qed
  have r't: "detectFaces dets' W' t = Inr r'"
    using r' a t by simp
  from r r't f below erased same
  show "\<exists>r r' olds rest.
      detectFaces dets W s = Inr r \<and> detectFaces dets' W' t = Inr r' \<and>
      enterCount r = enterCount r' \<and> exitCount r = exitCount r' \<and>
      trackedFaceStates r =
        olds @ map (\<lambda>(i, d). (i, new_face W i d)) (enumerate (nextTrackingId s) rest) \<and>
      trackedFaceStates r' =
        olds @ map (\<lambda>(i, d). (i, new_face W i d)) (enumerate (nextTrackingId t) rest) \<and>
      (\<forall>k \<in> fst ` set olds. k < nextTrackingId s \<and> k < nextTrackingId t) \<and>
      nextTrackingId r = nextTrackingId s + length rest \<and>
      nextTrackingId r' = nextTrackingId t + length rest \<and>
      map (\<lambda>(k, st). st\<lparr>id_st := 0\<rparr>) (trackedFaceStates r)
        = map (\<lambda>(k, st). st\<lparr>id_st := 0\<rparr>) (trackedFaceStates r') \<and>
      (nextTrackingId s = nextTrackingId t \<longrightarrow> r = r')"
    unfolding spawned_def [symmetric] by blast
qed

theorem update_deterministic_up_to_new_ids_witness:
  "reachable one_face \<and> reachable one_face_later \<and>
   trackedFaceStates one_face = trackedFaceStates one_face_later \<and>
   enterCount one_face = enterCount one_face_later \<and>
   exitCount one_face = exitCount one_face_later \<and>
   (\<exists>r r'. detectFaces [det_at 300, det_at 100] 640 one_face = Inr r \<and>
      detectFaces [det_at 300, det_at 100] 640 one_face_later = Inr r' \<and>
      enterCount r = 1 \<and> enterCount r' = 1 \<and> exitCount r = 0 \<and> exitCount r' = 0 \<and>
      map fst (trackedFaceStates r) = [0, 1] \<and>
      map fst (trackedFaceStates r') = [0, 2] \<and>
      map (\<lambda>(k, st). st\<lparr>id_st := 0\<rparr>) (trackedFaceStates r)
        = map (\<lambda>(k, st). st\<lparr>id_st := 0\<rparr>) (trackedFaceStates r'))"
proof -
  let ?dets = "[det_at 300, det_at 100]"
  have h: "reachable one_face \<and> reachable one_face_later \<and> ?dets = ?dets \<and>
   (640::real) = 640 \<and>
   trackedFaceStates one_face = trackedFaceStates one_face_later \<and>
   enterCount one_face = enterCount one_face_later \<and>
   exitCount one_face = exitCount one_face_later"
    using reachable_one_face reachable_one_face_later by (simp add: one_face_later_def)
  from update_deterministic_up_to_new_ids [of one_face one_face_later ?dets ?dets 640 640] h
  obtain r r' where r: "detectFaces ?dets 640 one_face = Inr r"
    and r': "detectFaces ?dets 640 one_face_later = Inr r'"
    and cnt: "enterCount r = enterCount r'" "exitCount r = exitCount r'"
    and erased: "map (\<lambda>(k, st). st\<lparr>id_st := 0\<rparr>) (trackedFaceStates r)
        = map (\<lambda>(k, st). st\<lparr>id_st := 0\<rparr>) (trackedFaceStates r')"
    by blast
  have a: "detectFaces ?dets 640 one_face
     = Inr \<lparr>enterCount = 1, exitCount = 0,
            trackedFaceStates =
              [(0, (face_at 0 330 Right 0)\<lparr>isEnterCounted := True\<rparr>),
               (1, face_at 1 530 Right 0)],
            nextTrackingId = 2\<rparr>"
    by (simp add: one_face_def frame_eval)
  have b: "map fst (trackedFaceStates (projr (detectFaces ?dets 640 one_face_later))) = [0, 2]"
    by (simp add: one_face_later_def one_face_def frame_eval)
  from a r have "enterCount r = 1" "exitCount r = 0" "map fst (trackedFaceStates r) = [0, 1]"
    by auto
  moreover from b r' have "map fst (trackedFaceStates r') = [0, 2]"
    by simp
  ultimately show ?thesis
    using h r r' cnt erased by auto
qed

subsection \<open>C9: the update never fails\<close>

text \<open>
  Claim C9. The core of \<^verbatim>\<open>detectFaces\<close> has no failing path: for every detection list, also
  the empty one, every canvas width and every prior state it returns a state, never the
  TypeError of the model. With no detections, in a map with distinct keys (the keys of a
  \<^verbatim>\<open>Map\<close> are), every track ages by one missed frame, the tracks that would pass
  \<^verbatim>\<open>MAX_MISS_FRAMES\<close> are dropped, no track is made, and the counters and
  \<^verbatim>\<open>nextTrackingId\<close> stay as they are.
\<close>

theorem detectFaces_never_fails:
  "(\<exists>s'. detectFaces dets W s = Inr s') \<and>
   (distinct (map fst (trackedFaceStates s)) \<longrightarrow>
      detectFaces [] W s =
        Inr (s\<lparr>trackedFaceStates :=
                 map (\<lambda>(k, st). (k, st\<lparr>missedFrames := missedFrames st + 1\<rparr>))
                   (filter (\<lambda>(k, st). missedFrames st + 1 \<le> MAX_MISS_FRAMES)
                      (trackedFaceStates s))\<rparr>))"
  using detectFaces_total [of dets W s] detectFaces_no_detections [of s W] by blast

theorem detectFaces_never_fails_witness:
  "distinct (map fst (trackedFaceStates two_tracks)) \<and>
   (\<exists>s'. detectFaces [det_at 300] 640 two_tracks = Inr s') \<and>
   detectFaces [] 640 two_tracks =
     Inr (two_tracks\<lparr>trackedFaceStates := [(2, face_at 2 330 Right 3)]\<rparr>)"
proof -
  have d: "distinct (map fst (trackedFaceStates two_tracks))"
    by (simp add: two_tracks_def)
  from detectFaces_never_fails [of "[det_at 300]" 640 two_tracks]
  have "\<exists>s'. detectFaces [det_at 300] 640 two_tracks = Inr s'"
    by blast
  moreover from detectFaces_never_fails [of "[]" 640 two_tracks] d
  have "detectFaces [] 640 two_tracks =
     Inr (two_tracks\<lparr>trackedFaceStates := [(2, face_at 2 330 Right 3)]\<rparr>)"
    by (simp add: two_tracks_def face_at_def MAX_MISS_FRAMES_def)
  ultimately show ?thesis using d by blast
qed

subsection \<open>C10: the tracks backed by a detection\<close>

text \<open>
  Claim C10. After every frame from a state the program reaches, the number of tracks
  with \<^verbatim>\<open>missedFrames = 0\<close>, which is \<^verbatim>\<open>actualDetectionsCount\<close> of the drawing loop, is the
  number of detections of the frame. More precisely the boxes of these tracks are, as a
  multiset, the boxes of the detections: every detection backs exactly one track. Every
  track of the new map is either a matched old track or a new track, with
  \<^verbatim>\<open>missedFrames = 0\<close> and the box of a detection of the frame, or an old track that was not
  matched, with \<^verbatim>\<open>missedFrames\<close> at least \<open>1\<close>.
\<close>

theorem detections_back_tracks:
  "reachable s \<longrightarrow>
     (\<exists>s'. detectFaces dets W s = Inr s' \<and>
        actualDetectionsCount s' = length dets \<and>
        mset (map (\<lambda>(k, st). boundingBox_st st)
               (filter (\<lambda>(k, st). missedFrames st = 0) (trackedFaceStates s')))
          = mset (map boundingBox dets) \<and>
        (\<forall>(k, st) \<in> set (trackedFaceStates s').
           (missedFrames st = 0 \<and> boundingBox_st st \<in> boundingBox ` set dets) \<or>
           (1 \<le> missedFrames st \<and>
            (\<exists>old. lookup_track s k = Some old \<and>
                   st = old\<lparr>missedFrames := missedFrames old + 1\<rparr>))))"
proof
  assume r: "reachable s"
  then have wf: "wf s"
    by (rule reachable_wf)
  obtain s' where s': "detectFaces dets W s = Inr s'"
    using detectFaces_total by blast
  have ms: "mset (backed_boxes (trackedFaceStates s')) = mset (map boundingBox dets)"
    using wf s' by (rule frame_mset)
  then have "size (mset (backed_boxes (trackedFaceStates s'))) = size (mset (map boundingBox dets))"
    by simp
  then have cnt: "actualDetectionsCount s' = length dets"
    by (simp add: length_backed_boxes)
  have dist': "distinct (map fst (trackedFaceStates s'))"
    using wf_distinct [OF wf_frame_preserved [OF wf s']] .
  have each: "(missedFrames st = 0 \<and> boundingBox_st st \<in> boundingBox ` set dets) \<or>
           (1 \<le> missedFrames st \<and>
            (\<exists>old. lookup_track s k = Some old \<and>
                   st = old\<lparr>missedFrames := missedFrames old + 1\<rparr>))"
    if "(k, st) \<in> set (trackedFaceStates s')" for k st
  proof -
    have "lookup_track s' k = Some st"
      using that dist' by (simp add: lookup_track_def)
    with wf s' show ?thesis
    proof (cases rule: frame_track_cases)
      case (matched old d)
      then show ?thesis by (simp add: matched_face_fields)
    next
      case (ghost old)
      then show ?thesis by (simp add: aged_def)
    next
      case (new d)
      then show ?thesis by (simp add: new_face_fields)
    qed
  qed
  from s' cnt ms each
  show "\<exists>s'. detectFaces dets W s = Inr s' \<and>
        actualDetectionsCount s' = length dets \<and>
        mset (map (\<lambda>(k, st). boundingBox_st st)
               (filter (\<lambda>(k, st). missedFrames st = 0) (trackedFaceStates s')))
          = mset (map boundingBox dets) \<and>
        (\<forall>(k, st) \<in> set (trackedFaceStates s').
           (missedFrames st = 0 \<and> boundingBox_st st \<in> boundingBox ` set dets) \<or>
           (1 \<le> missedFrames st \<and>
            (\<exists>old. lookup_track s k = Some old \<and>
                   st = old\<lparr>missedFrames := missedFrames old + 1\<rparr>)))"
    unfolding backed_boxes_def by blast
qed

theorem detections_back_tracks_witness:
  "reachable two_faces \<and>
   (\<exists>s'. detectFaces [det_at 310, det_at 330] 640 two_faces = Inr s' \<and>
      actualDetectionsCount s' = 2 \<and>
      map fst (trackedFaceStates s') = [0, 1, 2] \<and>
      map (\<lambda>(k, st). missedFrames st) (trackedFaceStates s') = [0, 1, 0])"
proof -
  have r: "reachable two_faces"
    by (rule reachable_two_faces)
  with detections_back_tracks [of two_faces "[det_at 310, det_at 330]" 640]
  obtain s' where s': "detectFaces [det_at 310, det_at 330] 640 two_faces = Inr s'"
    and cnt: "actualDetectionsCount s' = length [det_at 310, det_at 330]"
    by blast
  have "detectFaces [det_at 310, det_at 330] 640 two_faces
     = Inr \<lparr>enterCount = 1, exitCount = 0,
            trackedFaceStates =
              [(0, (face_at 0 320 Right 0)\<lparr>isEnterCounted := True\<rparr>),
               (1, face_at 1 530 Right 1),
               (2, face_at 2 300 Left 0)],
            nextTrackingId = 3\<rparr>"
    by (simp add: two_faces_def frame_eval)
  with s' have "map fst (trackedFaceStates s') = [0, 1, 2]"
    "map (\<lambda>(k, st). missedFrames st) (trackedFaceStates s') = [0, 1, 0]"
    by (auto simp: face_at_def)
  with r s' cnt show ?thesis
    by simp
qed

end
